theory Spec2Isabelle
  imports Main "HOL-Library.Word"
begin

unbundle bit_operations_syntax

section \<open>The codec of udcode.py (class Converter)\<close>

text \<open>
  A shallow embedding of \<^verbatim>\<open>Converter.file_to_image\<close>, \<^verbatim>\<open>Converter.image_to_file\<close>,
  \<^verbatim>\<open>Converter._get_marker_color\<close> and \<^verbatim>\<open>Converter._find_closest_color\<close>.

  Conventions.
  \<^item> A Python \<^verbatim>\<open>bytes\<close> value is a list of 8-bit words.
  \<^item> Lengths, grid sizes, cell and pixel coordinates are \<^typ>\<open>nat\<close>; every subtraction of
    the source is done on \<^typ>\<open>int\<close> (Python integers do not truncate at zero).
  \<^item> The bit strings of the source (\<^verbatim>\<open>'0'\<close> and \<^verbatim>\<open>'1'\<close> characters) are lists of
    booleans, \<^term>\<open>False\<close> for \<^verbatim>\<open>'0'\<close>.
  \<^item> Every exception the source can raise is a value of \<open>error\<close>.
  \<^item> zlib's compressor and decompressor are parameters of the two entry points; CRC-32
    is defined below (reflected polynomial \<open>0xEDB88320\<close>).
  \<^item> PIL's image is a size and a pixel function. Saving an image and opening it again
    gives the same image, unless \<^verbatim>\<open>Image.open\<close> refuses it for its number of pixels
    (\<open>image_open\<close> below). \<open>image_to_file\<close> is the decoder from the opened image on,
    \<open>image_to_file_saved\<close> the decoder from the saved image on.
\<close>

subsection \<open>Data\<close>

type_synonym byte = "8 word"

type_synonym color = "int \<times> int \<times> int"

datatype error =
    ZeroDivisionError
  | StructError
  | ValueError
  | ZlibError
  | IndexError
  | DecompressionBombError

record canvas =
  img_width :: nat
  img_height :: nat
  img_pixel :: "nat \<times> nat \<Rightarrow> color"

text \<open>The lines \<^verbatim>\<open>image_to_file\<close> prints to stderr, without their wording.\<close>

datatype message =
    Decoding_grid nat nat
  | CRC_mismatch_warning
  | Decompressed nat nat
  | Decompression_failed
  | Decoded nat
  | CRC_line bool

definition PALETTE :: "color list" where
  "PALETTE =
    [(0, 0, 0), (255, 0, 0), (0, 255, 0), (0, 0, 255),
     (255, 255, 0), (255, 0, 255), (0, 255, 255), (255, 255, 255)]"

definition MARKER_SIZE :: nat where
  "MARKER_SIZE = 3"

definition PIXEL_SIZE :: nat where
  "PIXEL_SIZE = 8"

subsection \<open>zlib.crc32\<close>

definition crc32_shift :: "32 word \<Rightarrow> 32 word" where
  "crc32_shift c = (if bit c 0 then drop_bit 1 c XOR 0xEDB88320 else drop_bit 1 c)"

definition crc32_update :: "32 word \<Rightarrow> byte \<Rightarrow> 32 word" where
  "crc32_update c b = (crc32_shift ^^ 8) (c XOR ucast b)"

definition crc32 :: "byte list \<Rightarrow> 32 word" where
  "crc32 data = NOT (foldl crc32_update 0xFFFFFFFF data)"

subsection \<open>Bit strings: format(n, '0wb') and int(s, 2)\<close>

text \<open>\<^verbatim>\<open>format(n, 'b')\<close>: the binary digits of \<open>n\<close>, most significant first, \<^verbatim>\<open>'0'\<close> for 0.\<close>

fun bin_str :: "nat \<Rightarrow> bool list" where
  "bin_str n = (if n < 2 then [odd n] else bin_str (n div 2) @ [odd n])"

text \<open>\<^verbatim>\<open>format(n, '0wb')\<close>: zero-padded on the left to at least \<open>w\<close> characters.\<close>

definition format_b :: "nat \<Rightarrow> nat \<Rightarrow> bool list" where
  "format_b w n = replicate (w - length (bin_str n)) False @ bin_str n"

text \<open>\<^verbatim>\<open>int(s, 2)\<close> on a string of binary digits.\<close>

definition int2 :: "bool list \<Rightarrow> nat" where
  "int2 s = foldl (\<lambda>a b. 2 * a + (if b then 1 else 0)) 0 s"

subsection \<open>Bit packer (file_to_image, lines 66-70; image_to_file, lines 192-195)\<close>

text \<open>\<^verbatim>\<open>''.join(format(b, '08b') for b in full_data)\<close>\<close>

definition bytes_to_bits :: "byte list \<Rightarrow> bool list" where
  "bytes_to_bits full_data = concat (map (\<lambda>b. format_b 8 (unat b)) full_data)"

text \<open>\<^verbatim>\<open>while len(bit_string) % 3 != 0: bit_string += '0'\<close>\<close>

function pad_bits :: "bool list \<Rightarrow> bool list" where
  "pad_bits bit_string =
     (if length bit_string mod 3 \<noteq> 0 then pad_bits (bit_string @ [False]) else bit_string)"
  by pat_completeness auto
termination
proof (relation "measure (\<lambda>bs. (3 - length bs mod 3) mod 3)")
  show "wf (measure (\<lambda>bs::bool list. (3 - length bs mod 3) mod 3))"
    by simp
next
  fix bit_string :: "bool list"
  assume pos: "length bit_string mod 3 \<noteq> 0"
  have "length bit_string mod 3 < 3"
    by simp
  with pos consider "length bit_string mod 3 = 1" | "length bit_string mod 3 = 2"
    by linarith
  then have "(3 - Suc (length bit_string) mod 3) mod 3 < (3 - length bit_string mod 3) mod 3"
    by cases (simp_all add: mod_Suc)
  then show "(bit_string @ [False], bit_string) \<in> measure (\<lambda>bs. (3 - length bs mod 3) mod 3)"
    by simp
qed

text \<open>\<^verbatim>\<open>[int(bit_string[i:i+3], 2) for i in range(0, len(bit_string), 3)]\<close>, from index \<open>i\<close> on.\<close>

function bits_to_indices :: "bool list \<Rightarrow> nat \<Rightarrow> nat list" where
  "bits_to_indices bit_string i =
     (if i < length bit_string
      then int2 (take 3 (drop i bit_string)) # bits_to_indices bit_string (i + 3)
      else [])"
  by pat_completeness auto
termination
  by (relation "measure (\<lambda>(bs, i). length bs - i)") auto

definition pack :: "byte list \<Rightarrow> nat list" where
  "pack full_data = bits_to_indices (pad_bits (bytes_to_bits full_data)) 0"

text \<open>\<^verbatim>\<open>''.join(format(idx, '03b') for idx in color_indices)\<close>\<close>

definition indices_to_bits :: "nat list \<Rightarrow> bool list" where
  "indices_to_bits color_indices = concat (map (format_b 3) color_indices)"

text \<open>
  \<^verbatim>\<open>for i in range(0, len(bit_string) - 7, 8): byte_array.append(int(bit_string[i:i+8], 2))\<close>,
  from index \<open>i\<close> on. \<open>i < len - 7\<close> on integers is \<open>i + 7 < len\<close>. Eight binary digits
  are below 256, so \<^verbatim>\<open>bytearray.append\<close> accepts the value.
\<close>

function bits_to_bytes :: "bool list \<Rightarrow> nat \<Rightarrow> byte list" where
  "bits_to_bytes bit_string i =
     (if i + 7 < length bit_string
      then of_nat (int2 (take 8 (drop i bit_string))) # bits_to_bytes bit_string (i + 8)
      else [])"
  by pat_completeness auto
termination
  by (relation "measure (\<lambda>(bs, i). length bs - i)") auto

definition unpack :: "nat list \<Rightarrow> byte list" where
  "unpack color_indices = bits_to_bytes (indices_to_bits color_indices) 0"

subsection \<open>Frame header: struct.pack('>III?', ...) and struct.unpack('>III?', ...)\<close>

text \<open>One \<^verbatim>\<open>I\<close> field: four bytes, big-endian.\<close>

definition pack_u32 :: "nat \<Rightarrow> byte list" where
  "pack_u32 n = [of_nat (n div 2 ^ 24), of_nat (n div 2 ^ 16), of_nat (n div 2 ^ 8), of_nat n]"

text \<open>\<^verbatim>\<open>struct.pack\<close> raises \<^verbatim>\<open>struct.error\<close> for an \<^verbatim>\<open>I\<close> argument outside \<open>0 .. 2^32 - 1\<close>.\<close>

definition struct_pack :: "nat \<Rightarrow> nat \<Rightarrow> nat \<Rightarrow> bool \<Rightarrow> error + byte list" where
  "struct_pack a b c flag =
     (if a < 2 ^ 32 \<and> b < 2 ^ 32 \<and> c < 2 ^ 32
      then Inr (pack_u32 a @ pack_u32 b @ pack_u32 c @ [if flag then 1 else 0])
      else Inl StructError)"

definition unpack_u32 :: "byte list \<Rightarrow> nat" where
  "unpack_u32 bs = foldl (\<lambda>a b. 256 * a + unat b) 0 bs"

text \<open>\<^verbatim>\<open>struct.unpack\<close> wants exactly 13 bytes; \<^verbatim>\<open>?\<close> reads any nonzero byte as True.\<close>

definition struct_unpack :: "byte list \<Rightarrow> error + nat \<times> nat \<times> nat \<times> bool" where
  "struct_unpack bs =
     (if length bs = 13
      then Inr (unpack_u32 (take 4 bs), unpack_u32 (take 4 (drop 4 bs)),
                unpack_u32 (take 4 (drop 8 bs)), bs ! 12 \<noteq> 0)
      else Inl StructError)"

subsection \<open>Grid layout (file_to_image, lines 72-106)\<close>

definition count_data_positions :: "nat \<Rightarrow> int" where
  "count_data_positions grid_size =
     (let m = int MARKER_SIZE;
          total = int grid_size * int grid_size;
          marker_overlap = 4 * m * m
      in total - marker_overlap)"

text \<open>\<^verbatim>\<open>while count_data_positions(grid_size) < total_data_pixels: grid_size += 1\<close>\<close>

function find_grid_size :: "nat \<Rightarrow> nat \<Rightarrow> nat" where
  "find_grid_size total_data_pixels grid_size =
     (if count_data_positions grid_size < int total_data_pixels
      then find_grid_size total_data_pixels (grid_size + 1)
      else grid_size)"
  by pat_completeness auto
termination
proof (relation "measure (\<lambda>(t, g). t + 36 - g)")
  show "wf (measure (\<lambda>(t::nat, g::nat). t + 36 - g))"
    by simp
next
  fix total_data_pixels grid_size :: nat
  assume "count_data_positions grid_size < int total_data_pixels"
  then have "int grid_size * int grid_size < int total_data_pixels + 36"
    by (simp add: count_data_positions_def MARKER_SIZE_def)
  then have "grid_size * grid_size < total_data_pixels + 36"
    by (metis (mono_tags) of_nat_add of_nat_less_iff of_nat_mult of_nat_numeral)
  moreover have "grid_size \<le> grid_size * grid_size"
    by (cases grid_size) simp_all
  ultimately have "grid_size < total_data_pixels + 36"
    by linarith
  then show "((total_data_pixels, grid_size + 1), (total_data_pixels, grid_size))
      \<in> measure (\<lambda>(t, g). t + 36 - g)"
    by simp
qed

text \<open>The marker test both entry points write out inline (lines 97-102 and 176-181).\<close>

definition is_marker_position :: "nat \<Rightarrow> nat \<Rightarrow> nat \<Rightarrow> nat \<Rightarrow> bool" where
  "is_marker_position col row grid_width grid_height =
     (let m = int MARKER_SIZE;
          is_top_left = (int col < m \<and> int row < m);
          is_top_right = (int col \<ge> int grid_width - m \<and> int row < m);
          is_bottom_left = (int col < m \<and> int row \<ge> int grid_height - m);
          is_bottom_right = (int col \<ge> int grid_width - m \<and> int row \<ge> int grid_height - m)
      in is_top_left \<or> is_top_right \<or> is_bottom_left \<or> is_bottom_right)"

text \<open>
  The inner loop over the columns of one row (lines 95-106). The state is the iterator
  over the symbols (what is left of it) and the dictionary \<^verbatim>\<open>data_grid\<close>. When the
  iterator is exhausted at a data cell, \<^verbatim>\<open>StopIteration\<close> is caught and \<^verbatim>\<open>break\<close> leaves
  this row's loop; the loop over the rows goes on.
\<close>

fun assign_row ::
  "nat \<Rightarrow> nat \<Rightarrow> nat \<Rightarrow> nat list \<Rightarrow> nat list \<times> (nat \<times> nat \<rightharpoonup> nat)
    \<Rightarrow> nat list \<times> (nat \<times> nat \<rightharpoonup> nat)" where
  "assign_row grid_width grid_height row [] st = st"
| "assign_row grid_width grid_height row (col # cols) (it, data_grid) =
     (if is_marker_position col row grid_width grid_height
      then assign_row grid_width grid_height row cols (it, data_grid)
      else (case it of
              [] \<Rightarrow> (it, data_grid)
            | idx # it' \<Rightarrow>
                assign_row grid_width grid_height row cols (it', data_grid((col, row) \<mapsto> idx))))"

definition build_data_grid :: "nat \<Rightarrow> nat \<Rightarrow> nat list \<Rightarrow> (nat \<times> nat \<rightharpoonup> nat)" where
  "build_data_grid grid_width grid_height color_indices =
     snd (fold (\<lambda>row. assign_row grid_width grid_height row [0..<grid_width])
            [0..<grid_height] (color_indices, Map.empty))"

text \<open>The cells in the order of \<^verbatim>\<open>for row in range(h): for col in range(w)\<close>.\<close>

definition grid_cells :: "nat \<Rightarrow> nat \<Rightarrow> (nat \<times> nat) list" where
  "grid_cells grid_width grid_height =
     concat (map (\<lambda>row. map (\<lambda>col. (col, row)) [0..<grid_width]) [0..<grid_height])"

subsection \<open>Marker generator (_get_marker_color, lines 235-257)\<close>

text \<open>
  The source returns \<^verbatim>\<open>(True, color)\<close> or \<^verbatim>\<open>(False, None)\<close>: here \<open>Some color\<close> or
  \<open>None\<close>. The arguments are Python integers.
\<close>

definition get_marker_color :: "int \<Rightarrow> int \<Rightarrow> int \<Rightarrow> int \<Rightarrow> color option" where
  "get_marker_color col row grid_width grid_height =
     (let m = int MARKER_SIZE in
      if col < m \<and> row < m
      then Some (if (col + row) mod 2 = 0 then (255, 255, 255) else (0, 0, 0))
      else if col \<ge> grid_width - m \<and> row < m
      then (let dx = col - (grid_width - m)
            in Some (if dx mod 2 = 0 then (0, 0, 0) else (255, 255, 255)))
      else if col < m \<and> row \<ge> grid_height - m
      then (let dy = row - (grid_height - m)
            in Some (if dy mod 2 = 0 then (0, 0, 0) else (255, 255, 255)))
      else if col \<ge> grid_width - m \<and> row \<ge> grid_height - m
      then (let dx = col - (grid_width - m);
                dy = row - (grid_height - m);
                dist = min dx (min dy (min (m - 1 - dx) (m - 1 - dy)))
            in Some (if dist mod 2 = 0 then (0, 0, 0) else (255, 255, 255)))
      else None)"

subsection \<open>Palette codec (PALETTE[idx]; _find_closest_color, lines 259-271)\<close>

text \<open>\<^verbatim>\<open>Converter.PALETTE[idx]\<close> for \<open>idx \<ge> 0\<close>: IndexError past the end.\<close>

definition palette_lookup :: "nat \<Rightarrow> error + color" where
  "palette_lookup idx = (if idx < length PALETTE then Inr (PALETTE ! idx) else Inl IndexError)"

text \<open>\<^verbatim>\<open>sum((a - b) ** 2 for a, b in zip(pixel_color, palette_color))\<close>\<close>

fun color_dist :: "color \<Rightarrow> color \<Rightarrow> int" where
  "color_dist (a1, a2, a3) (b1, b2, b3) = (a1 - b1)\<^sup>2 + (a2 - b2)\<^sup>2 + (a3 - b3)\<^sup>2"

text \<open>
  The loop over \<^verbatim>\<open>enumerate(Converter.PALETTE)\<close>. \<open>min_dist\<close> starts as \<^verbatim>\<open>float('inf')\<close>,
  here \<open>None\<close>: every distance is below it.
\<close>

fun closest_loop :: "color \<Rightarrow> (nat \<times> color) list \<Rightarrow> int option \<times> nat \<Rightarrow> int option \<times> nat" where
  "closest_loop pixel_color [] st = st"
| "closest_loop pixel_color ((idx, palette_color) # rest) (min_dist, closest_idx) =
     (let dist = color_dist pixel_color palette_color in
      if (case min_dist of None \<Rightarrow> True | Some d \<Rightarrow> dist < d)
      then closest_loop pixel_color rest (Some dist, idx)
      else closest_loop pixel_color rest (min_dist, closest_idx))"

definition find_closest_color :: "color \<Rightarrow> nat" where
  "find_closest_color pixel_color =
     snd (closest_loop pixel_color (enumerate 0 PALETTE) (None, 0))"

subsection \<open>Pixel canvas (PIL)\<close>

text \<open>\<^verbatim>\<open>Image.new('RGB', (w, h))\<close>: every pixel black.\<close>

definition new_image :: "nat \<Rightarrow> nat \<Rightarrow> canvas" where
  "new_image w h = \<lparr>img_width = w, img_height = h, img_pixel = (\<lambda>xy. (0, 0, 0))\<rparr>"

text \<open>\<^verbatim>\<open>draw.rectangle([x0, y0, x1, y1], fill=color)\<close>: both corners included.\<close>

definition draw_rectangle :: "canvas \<Rightarrow> nat \<Rightarrow> nat \<Rightarrow> nat \<Rightarrow> nat \<Rightarrow> color \<Rightarrow> canvas" where
  "draw_rectangle img x0 y0 x1 y1 fill =
     img\<lparr>img_pixel :=
       (\<lambda>xy. if x0 \<le> fst xy \<and> fst xy \<le> x1 \<and> y0 \<le> snd xy \<and> snd xy \<le> y1
             then fill else img_pixel img xy)\<rparr>"

text \<open>\<^verbatim>\<open>img.getpixel((x, y))\<close> for \<open>x, y \<ge> 0\<close>: IndexError outside the image.\<close>

definition getpixel :: "canvas \<Rightarrow> nat \<times> nat \<Rightarrow> error + color" where
  "getpixel img xy =
     (if fst xy < img_width img \<and> snd xy < img_height img
      then Inr (img_pixel img xy) else Inl IndexError)"

subsection \<open>Encoder (file_to_image, lines 42-149)\<close>

text \<open>The colour of one cell (lines 121-128).\<close>

definition cell_color :: "(nat \<times> nat \<rightharpoonup> nat) \<Rightarrow> nat \<Rightarrow> nat \<Rightarrow> nat \<Rightarrow> nat \<Rightarrow> error + color" where
  "cell_color data_grid grid_width grid_height col row =
     (case get_marker_color (int col) (int row) (int grid_width) (int grid_height) of
        Some marker_color \<Rightarrow> Inr marker_color
      | None \<Rightarrow>
          (case data_grid (col, row) of
             Some idx \<Rightarrow> palette_lookup idx
           | None \<Rightarrow> Inr (0, 0, 0)))"

text \<open>The drawing loop (lines 116-131) over the cells in scan order.\<close>

fun draw_cells ::
  "(nat \<times> nat \<rightharpoonup> nat) \<Rightarrow> nat \<Rightarrow> nat \<Rightarrow> (nat \<times> nat) list \<Rightarrow> canvas \<Rightarrow> error + canvas" where
  "draw_cells data_grid grid_width grid_height [] img = Inr img"
| "draw_cells data_grid grid_width grid_height ((col, row) # cells) img =
     (let x = col * PIXEL_SIZE;
          y = row * PIXEL_SIZE
      in case cell_color data_grid grid_width grid_height col row of
           Inl e \<Rightarrow> Inl e
         | Inr color \<Rightarrow>
             draw_cells data_grid grid_width grid_height cells
               (draw_rectangle img x y (x + PIXEL_SIZE - 1) (y + PIXEL_SIZE - 1) color))"

text \<open>
  \<^verbatim>\<open>file_to_image(input_data, output_image, compress, verbose)\<close> for \<^verbatim>\<open>bytes\<close> input; the
  result is the image it saves. Of the progress lines only the one that can raise is
  modelled: \<^verbatim>\<open>100*len(data)/original_size\<close> (line 58) divides by the input's length. The
  two divisions of lines 145 and 147 have a nonzero divisor whenever they are reached.
\<close>

definition file_to_image ::
  "(byte list \<Rightarrow> byte list) \<Rightarrow> byte list \<Rightarrow> bool \<Rightarrow> bool \<Rightarrow> error + canvas" where
  "file_to_image compress_data input_data compress verbose =
     (let original_size = length input_data;
          data = (if compress then compress_data input_data else input_data)
      in if compress \<and> verbose \<and> original_size = 0 then Inl ZeroDivisionError
         else
           (let checksum = unat (crc32 data AND 0xFFFFFFFF)
            in case struct_pack (length data) original_size checksum compress of
                 Inl e \<Rightarrow> Inl e
               | Inr header \<Rightarrow>
                   (let full_data = header @ data;
                        color_indices = pack full_data;
                        total_data_pixels = length color_indices;
                        grid_size = find_grid_size total_data_pixels (2 * MARKER_SIZE);
                        grid_width = grid_size;
                        grid_height = grid_size;
                        data_grid = build_data_grid grid_width grid_height color_indices;
                        img_w = grid_width * PIXEL_SIZE;
                        img_h = grid_height * PIXEL_SIZE
                    in draw_cells data_grid grid_width grid_height
                         (grid_cells grid_width grid_height) (new_image img_w img_h))))"

subsection \<open>Decoder (image_to_file, lines 151-233)\<close>

text \<open>The sampling loop (lines 174-189) over the cells in scan order.\<close>

fun sample_cells :: "canvas \<Rightarrow> nat \<Rightarrow> nat \<Rightarrow> (nat \<times> nat) list \<Rightarrow> error + nat list" where
  "sample_cells img grid_width grid_height [] = Inr []"
| "sample_cells img grid_width grid_height ((col, row) # cells) =
     (if is_marker_position col row grid_width grid_height
      then sample_cells img grid_width grid_height cells
      else
        (let x = col * PIXEL_SIZE + PIXEL_SIZE div 2;
             y = row * PIXEL_SIZE + PIXEL_SIZE div 2
         in case getpixel img (x, y) of
              Inl e \<Rightarrow> Inl e
            | Inr pixel_color \<Rightarrow>
                (case sample_cells img grid_width grid_height cells of
                   Inl e \<Rightarrow> Inl e
                 | Inr color_indices \<Rightarrow> Inr (find_closest_color pixel_color # color_indices))))"

text \<open>The last two progress lines (lines 229-231).\<close>

definition final_lines :: "string option \<Rightarrow> bool \<Rightarrow> nat \<Rightarrow> bool \<Rightarrow> message list" where
  "final_lines output_file verbose n crc_ok =
     (if verbose \<and> output_file \<noteq> None \<and> output_file \<noteq> Some ''-''
      then [Decoded n, CRC_line crc_ok] else [])"

text \<open>
  Lines 197-233, from the unpacked \<^verbatim>\<open>byte_array\<close> on: the lines printed to stderr and
  the bytes returned (the same bytes are written to the output), or the exception.
  \<^verbatim>\<open>byte_array[13:13+compressed_size]\<close> is a slice: it is shorter when the array is.
\<close>

definition decode_frame ::
  "(byte list \<Rightarrow> byte list option) \<Rightarrow> byte list \<Rightarrow> string option \<Rightarrow> bool
    \<Rightarrow> message list \<times> (error + byte list)" where
  "decode_frame decompress_data byte_array output_file verbose =
     (if length byte_array < 13 then ([], Inl ValueError)
      else
        (case struct_unpack (take 13 byte_array) of
           Inl e \<Rightarrow> ([], Inl e)
         | Inr (compressed_size, original_size, expected_crc, compress_flag) \<Rightarrow>
             (let data = take compressed_size (drop 13 byte_array);
                  actual_crc = unat (crc32 data AND 0xFFFFFFFF);
                  warning = (if actual_crc \<noteq> expected_crc \<and> verbose
                             then [CRC_mismatch_warning] else [])
              in if compress_flag
                 then
                   (case decompress_data data of
                      None \<Rightarrow> (warning @ [Decompression_failed], Inl ZlibError)
                    | Some out \<Rightarrow>
                        (warning
                           @ (if verbose then [Decompressed compressed_size (length out)] else [])
                           @ final_lines output_file verbose (length out) (actual_crc = expected_crc),
                         Inr out))
                 else
                   (warning
                      @ final_lines output_file verbose (length data) (actual_crc = expected_crc),
                    Inr data))))"

definition image_to_file ::
  "(byte list \<Rightarrow> byte list option) \<Rightarrow> canvas \<Rightarrow> string option \<Rightarrow> bool
    \<Rightarrow> message list \<times> (error + byte list)" where
  "image_to_file decompress_data img output_file verbose =
     (let grid_width = img_width img div PIXEL_SIZE;
          grid_height = img_height img div PIXEL_SIZE;
          grid_line = (if verbose then [Decoding_grid grid_width grid_height] else [])
      in case sample_cells img grid_width grid_height (grid_cells grid_width grid_height) of
           Inl e \<Rightarrow> (grid_line, Inl e)
         | Inr color_indices \<Rightarrow>
             (let byte_array = unpack color_indices;
                  r = decode_frame decompress_data byte_array output_file verbose
              in (grid_line @ fst r, snd r)))"

subsection \<open>Auxiliary notions of the proofs\<close>

text \<open>
  The loop invariant of \<open>closest_loop\<close> after the palette entries below \<open>m\<close>: nothing
  seen yet, or the best entry so far, the first among the equally near ones.
\<close>

definition closest_inv :: "color \<Rightarrow> color list \<Rightarrow> nat \<Rightarrow> int option \<times> nat \<Rightarrow> bool" where
  "closest_inv c ps m st =
     (case st of (min_dist, closest_idx) \<Rightarrow>
        (m = 0 \<and> min_dist = None \<and> closest_idx = 0)
        \<or> (closest_idx < m \<and> min_dist = Some (color_dist c (ps ! closest_idx))
           \<and> list_all (\<lambda>j. color_dist c (ps ! closest_idx) \<le> color_dist c (ps ! j)) [0..<m]
           \<and> list_all (\<lambda>j. color_dist c (ps ! closest_idx) < color_dist c (ps ! j)) [0..<closest_idx]))"

text \<open>The data cells of a grid in scan order, and those of one row.\<close>

definition data_cells :: "nat \<Rightarrow> nat \<Rightarrow> (nat \<times> nat) list" where
  "data_cells gw gh =
     filter (\<lambda>cell. \<not> is_marker_position (fst cell) (snd cell) gw gh) (grid_cells gw gh)"

definition row_data_cells :: "nat \<Rightarrow> nat \<Rightarrow> nat \<Rightarrow> nat list \<Rightarrow> (nat \<times> nat) list" where
  "row_data_cells gw gh row cols =
     map (\<lambda>col. (col, row)) (filter (\<lambda>col. \<not> is_marker_position col row gw gh) cols)"

text \<open>
  A pair of byte transforms to put in the place of zlib's in closed instances: the
  compressor puts one zero byte in front, the decompressor accepts exactly such input.
\<close>

definition stored_compress :: "byte list \<Rightarrow> byte list" where
  "stored_compress b = 0 # b"

fun stored_decompress :: "byte list \<Rightarrow> byte list option" where
  "stored_decompress [] = None"
| "stored_decompress (t # b) = (if t = 0 then Some b else None)"

text \<open>
  The \<^verbatim>\<open>byte_array\<close> of \<^verbatim>\<open>image_to_file\<close> (lines 161-195): the grid from the image's size,
  the samples of its data cells, unpacked.
\<close>

definition sampled_bytes :: "canvas \<Rightarrow> error + byte list" where
  "sampled_bytes img =
     (let grid_width = img_width img div PIXEL_SIZE;
          grid_height = img_height img div PIXEL_SIZE
      in case sample_cells img grid_width grid_height (grid_cells grid_width grid_height) of
           Inl e \<Rightarrow> Inl e
         | Inr color_indices \<Rightarrow> Inr (unpack color_indices))"

subsection \<open>Opening the saved image (image_to_file, lines 155-159)\<close>

text \<open>
  \<^verbatim>\<open>Image.open\<close> checks the size read from the file before anything else: more than
  \<open>2 * MAX_IMAGE_PIXELS\<close> pixels raise DecompressionBombError (between one and two times
  the limit PIL only warns). \<^verbatim>\<open>Image.MAX_IMAGE_PIXELS\<close> is \<open>1024 * 1024 * 1024 // 4 // 3\<close>.
\<close>

definition MAX_IMAGE_PIXELS :: nat where
  "MAX_IMAGE_PIXELS = 89478485"

definition image_open :: "canvas \<Rightarrow> error + canvas" where
  "image_open saved =
     (let pixels = max 1 (img_width saved) * max 1 (img_height saved)
      in if pixels > 2 * MAX_IMAGE_PIXELS then Inl DecompressionBombError else Inr saved)"

definition image_to_file_saved ::
  "(byte list \<Rightarrow> byte list option) \<Rightarrow> canvas \<Rightarrow> string option \<Rightarrow> bool
    \<Rightarrow> message list \<times> (error + byte list)" where
  "image_to_file_saved decompress_data saved output_file verbose =
     (case image_open saved of
        Inl e \<Rightarrow> ([], Inl e)
      | Inr img \<Rightarrow> image_to_file decompress_data img output_file verbose)"

section \<open>Properties of the codec\<close>

subsection \<open>Binary digits\<close>

declare bin_str.simps [simp del]

lemma int2_snoc: "int2 (xs @ [b]) = 2 * int2 xs + (if b then 1 else 0)"
  by (simp add: int2_def)

lemma int2_Nil: "int2 [] = 0"
  by (simp add: int2_def)

lemma int2_bin_str: "int2 (bin_str n) = n"
proof (induction n rule: bin_str.induct)
  case (1 n)
  show ?case
  proof (cases "n < 2")
    case True
    then have "n = 0 \<or> n = 1" by linarith
    then show ?thesis
      by (subst bin_str.simps) (auto simp: int2_def)
  next
    case False
    with 1 have ih: "int2 (bin_str (n div 2)) = n div 2" by simp
    have "bin_str n = bin_str (n div 2) @ [odd n]"
      using False by (subst bin_str.simps) simp
    then show ?thesis
      by (simp add: int2_snoc ih)
  qed
qed

lemma length_bin_str: "n < 2 ^ w \<Longrightarrow> 0 < w \<Longrightarrow> length (bin_str n) \<le> w"
proof (induction n arbitrary: w rule: bin_str.induct)
  case (1 n)
  show ?case
  proof (cases "n < 2")
    case True
    then show ?thesis
      using "1.prems" by (subst bin_str.simps) simp
  next
    case False
    obtain v where w: "w = Suc v"
      using "1.prems" by (cases w) auto
    have "v \<noteq> 0"
      using False "1.prems" w by (cases v) auto
    moreover have "n div 2 < 2 ^ v"
      using "1.prems" w by auto
    ultimately have "length (bin_str (n div 2)) \<le> v"
      using "1.IH" [of v] False by simp
    moreover have "bin_str n = bin_str (n div 2) @ [odd n]"
      using False by (subst bin_str.simps) simp
    ultimately show ?thesis
      using w by simp
  qed
qed

lemma int2_zeros: "int2 (replicate k False @ xs) = int2 xs"
proof -
  have "foldl (\<lambda>a b. 2 * a + (if b then 1 else 0)) (0::nat) (replicate k False) = 0"
    by (induction k) simp_all
  then show ?thesis
    by (simp add: int2_def)
qed

lemma int2_format_b: "int2 (format_b w n) = n"
  by (simp add: format_b_def int2_zeros int2_bin_str)

lemma length_format_b: "n < 2 ^ w \<Longrightarrow> 0 < w \<Longrightarrow> length (format_b w n) = w"
  using length_bin_str [of n w] by (simp add: format_b_def)

lemma int2_less: "int2 xs < 2 ^ length xs"
  by (induction xs rule: rev_induct) (simp_all add: int2_snoc int2_Nil)

lemma int2_inj: "length xs = length ys \<Longrightarrow> int2 xs = int2 ys \<Longrightarrow> xs = ys"
proof (induction xs arbitrary: ys rule: rev_induct)
  case Nil
  then show ?case by simp
next
  case (snoc x xs)
  then obtain y ys' where ys: "ys = ys' @ [y]"
    by (cases ys rule: rev_cases) auto
  from snoc.prems ys have eq: "2 * int2 xs + (if x then 1 else 0) = 2 * int2 ys' + (if y then 1 else 0)"
    by (simp add: int2_snoc)
  then have "x = y"
    by (cases x; cases y; simp) presburger+
  with eq have "int2 xs = int2 ys'" by simp
  with snoc ys \<open>x = y\<close> show ?case by simp
qed

lemma format_b_int2: "xs \<noteq> [] \<Longrightarrow> format_b (length xs) (int2 xs) = xs"
  by (rule int2_inj) (simp_all add: length_format_b int2_less int2_format_b)

lemma byte_of_bits: "(of_nat (int2 (format_b 8 (unat (b::byte)))) :: byte) = b"
  by (simp add: int2_format_b)

lemma length_byte_bits: "length (format_b 8 (unat (b::byte))) = 8"
proof -
  have "unat b < 2 ^ 8"
    using unsigned_less [of b] by simp
  then show ?thesis
    by (simp add: length_format_b)
qed

subsection \<open>Packing and unpacking\<close>

declare pad_bits.simps [simp del] bits_to_indices.simps [simp del] bits_to_bytes.simps [simp del]

lemma pad_bits_shape:
  "\<exists>k. pad_bits bs = bs @ replicate k False \<and> length (pad_bits bs) mod 3 = 0"
proof (induction bs rule: pad_bits.induct)
  case (1 bs)
  show ?case
  proof (cases "length bs mod 3 \<noteq> 0")
    case True
    from 1 [OF True] obtain k where k: "pad_bits (bs @ [False]) = (bs @ [False]) @ replicate k False"
        "length (pad_bits (bs @ [False])) mod 3 = 0"
      by auto
    have step: "pad_bits bs = pad_bits (bs @ [False])"
      using True by (subst pad_bits.simps) simp
    have "pad_bits bs = bs @ replicate (Suc k) False"
      using k(1) step by simp
    moreover have "length (pad_bits bs) mod 3 = 0"
      using k(2) step by simp
    ultimately show ?thesis by (intro exI [of _ "Suc k"] conjI)
  next
    case False
    then have "pad_bits bs = bs"
      by (subst pad_bits.simps) simp
    with False show ?thesis by simp
  qed
qed

lemma bits_to_indices_below:
  "x \<in> set (bits_to_indices bs i) \<Longrightarrow> x < 8"
proof (induction bs i rule: bits_to_indices.induct)
  case (1 bs i)
  show ?case
  proof (cases "i < length bs")
    case True
    then have unf: "bits_to_indices bs i = int2 (take 3 (drop i bs)) # bits_to_indices bs (i + 3)"
      by (subst bits_to_indices.simps) simp
    have "int2 (take 3 (drop i bs)) < 2 ^ length (take 3 (drop i bs))"
      by (rule int2_less)
    also have "\<dots> \<le> 2 ^ 3"
      by (rule power_increasing) simp_all
    finally have "int2 (take 3 (drop i bs)) < 8" by simp
    with 1 True unf show ?thesis by auto
  next
    case False
    then have "bits_to_indices bs i = []"
      by (subst bits_to_indices.simps) simp
    with 1 show ?thesis by simp
  qed
qed

lemma indices_to_bits_Cons:
  "indices_to_bits (x # xs) = format_b 3 x @ indices_to_bits xs"
  by (simp add: indices_to_bits_def)

lemma indices_to_bits_append:
  "indices_to_bits (xs @ ys) = indices_to_bits xs @ indices_to_bits ys"
  by (simp add: indices_to_bits_def)

lemma indices_to_bits_zeros:
  "indices_to_bits (replicate j 0) = replicate (3 * j) False"
proof -
  have f: "format_b 3 0 = replicate 3 False"
    by (simp add: format_b_def bin_str.simps numeral_3_eq_3)
  show ?thesis
  proof (induction j)
    case 0
    show ?case by (simp add: indices_to_bits_def)
  next
    case (Suc j)
    have "indices_to_bits (replicate (Suc j) 0) = replicate 3 False @ indices_to_bits (replicate j 0)"
      by (simp add: indices_to_bits_Cons f)
    also have "\<dots> = replicate (3 + 3 * j) False"
      unfolding Suc.IH by (rule replicate_add [symmetric])
    finally show ?case by simp
  qed
qed

lemma indices_of_bits:
  "length bs mod 3 = 0 \<Longrightarrow> i mod 3 = 0 \<Longrightarrow>
     indices_to_bits (bits_to_indices bs i) = drop i bs"
proof (induction bs i rule: bits_to_indices.induct)
  case (1 bs i)
  show ?case
  proof (cases "i < length bs")
    case True
    then have unf: "bits_to_indices bs i = int2 (take 3 (drop i bs)) # bits_to_indices bs (i + 3)"
      by (subst bits_to_indices.simps) simp
    have "3 dvd i" "3 dvd length bs"
      using "1.prems" by (simp_all add: dvd_eq_mod_eq_0)
    then obtain a b where ab: "i = 3 * a" "length bs = 3 * b"
      by (auto elim!: dvdE)
    with True have "a < b" by simp
    then have "3 * a + 3 \<le> 3 * b" by simp
    with ab have "i + 3 \<le> length bs" by simp
    then have len: "length (take 3 (drop i bs)) = 3" by simp
    then have ne: "take 3 (drop i bs) \<noteq> []" by auto
    have "format_b 3 (int2 (take 3 (drop i bs))) = take 3 (drop i bs)"
      using format_b_int2 [OF ne] len by simp
    moreover have "indices_to_bits (bits_to_indices bs (i + 3)) = drop (i + 3) bs"
      using "1.IH" True "1.prems" by simp
    moreover have "take 3 (drop i bs) @ drop (i + 3) bs = drop i bs"
    proof -
      have "drop (i + 3) bs = drop 3 (drop i bs)"
        by (simp add: add.commute)
      then show ?thesis
        by (simp only: append_take_drop_id)
    qed
    ultimately show ?thesis
      by (simp add: unf indices_to_bits_Cons)
  next
    case False
    then have "bits_to_indices bs i = []"
      by (subst bits_to_indices.simps) simp
    with False show ?thesis by (simp add: indices_to_bits_def)
  qed
qed

lemma bits_to_bytes_shift:
  "bits_to_bytes (xs @ ys) (length xs + i) = bits_to_bytes ys i"
proof (induction ys i rule: bits_to_bytes.induct)
  case (1 ys i)
  show ?case
  proof (cases "i + 7 < length ys")
    case True
    then have "bits_to_bytes ys i = of_nat (int2 (take 8 (drop i ys))) # bits_to_bytes ys (i + 8)"
      by (subst bits_to_bytes.simps) simp
    moreover have "bits_to_bytes (xs @ ys) (length xs + i)
        = of_nat (int2 (take 8 (drop (length xs + i) (xs @ ys))))
            # bits_to_bytes (xs @ ys) (length xs + i + 8)"
      using True by (subst bits_to_bytes.simps) simp
    moreover have "bits_to_bytes (xs @ ys) (length xs + (i + 8)) = bits_to_bytes ys (i + 8)"
      using "1.IH" True by simp
    ultimately show ?thesis
      by (simp add: add.assoc)
  next
    case False
    then have "bits_to_bytes ys i = []"
      by (subst bits_to_bytes.simps) simp
    moreover have "bits_to_bytes (xs @ ys) (length xs + i) = []"
      using False by (subst bits_to_bytes.simps) simp
    ultimately show ?thesis by simp
  qed
qed

lemma bits_to_bytes_byte:
  "bits_to_bytes (format_b 8 (unat (b::byte)) @ rest) 0 = b # bits_to_bytes rest 0"
proof -
  let ?x = "format_b 8 (unat b)"
  have len: "length ?x = 8" by (rule length_byte_bits)
  have "bits_to_bytes (?x @ rest) 0
      = of_nat (int2 (take 8 (drop 0 (?x @ rest)))) # bits_to_bytes (?x @ rest) (0 + 8)"
    using len by (subst bits_to_bytes.simps) simp
  moreover have "take 8 (drop 0 (?x @ rest)) = ?x"
    using len by simp
  moreover have "bits_to_bytes (?x @ rest) (length ?x + 0) = bits_to_bytes rest 0"
    by (rule bits_to_bytes_shift)
  ultimately show ?thesis
    using len by (simp add: byte_of_bits)
qed

lemma bits_to_bytes_bytes:
  "bits_to_bytes (bytes_to_bits bs @ rest) 0 = bs @ bits_to_bytes rest 0"
  by (induction bs) (simp_all add: bytes_to_bits_def bits_to_bytes_byte)

lemma indices_to_bits_pack:
  "\<exists>k. indices_to_bits (pack bs) = bytes_to_bits bs @ replicate k False"
proof -
  obtain k where k1: "pad_bits (bytes_to_bits bs) = bytes_to_bits bs @ replicate k False"
      and k2: "length (pad_bits (bytes_to_bits bs)) mod 3 = 0"
    using pad_bits_shape [of "bytes_to_bits bs"] by (elim exE conjE)
  have "indices_to_bits (bits_to_indices (pad_bits (bytes_to_bits bs)) 0)
      = drop 0 (pad_bits (bytes_to_bits bs))"
    using k2 by (rule indices_of_bits) simp
  then have "indices_to_bits (pack bs) = bytes_to_bits bs @ replicate k False"
    unfolding pack_def k1 by simp
  then show ?thesis ..
qed

lemma unpack_pack_padding:
  "\<exists>extra. unpack (pack bs @ replicate j 0) = bs @ extra"
proof -
  obtain k where k: "indices_to_bits (pack bs) = bytes_to_bits bs @ replicate k False"
    using indices_to_bits_pack [of bs] by (elim exE)
  have "indices_to_bits (pack bs @ replicate j 0)
      = bytes_to_bits bs @ (replicate k False @ replicate (3 * j) False)"
    unfolding indices_to_bits_append indices_to_bits_zeros k by simp
  then have "unpack (pack bs @ replicate j 0)
      = bs @ bits_to_bytes (replicate k False @ replicate (3 * j) False) 0"
    unfolding unpack_def by (simp only: bits_to_bytes_bytes)
  then show ?thesis ..
qed

lemma pack_below: "x \<in> set (pack bs) \<Longrightarrow> x < 8"
  unfolding pack_def by (rule bits_to_indices_below)

subsection \<open>The grid size search\<close>

declare find_grid_size.simps [simp del]

lemma count_data_positions_eq: "count_data_positions g = int g * int g - 36"
  by (simp add: count_data_positions_def MARKER_SIZE_def)

lemma find_grid_size_props:
  "s \<le> find_grid_size n s
   \<and> int n \<le> count_data_positions (find_grid_size n s)
   \<and> (\<forall>g. s \<le> g \<and> g < find_grid_size n s \<longrightarrow> count_data_positions g < int n)"
proof (induction n s rule: find_grid_size.induct)
  case (1 n s)
  show ?case
  proof (cases "count_data_positions s < int n")
    case True
    then have unf: "find_grid_size n s = find_grid_size n (s + 1)"
      by (subst find_grid_size.simps) simp
    from "1.IH" [OF True]
    have a: "s + 1 \<le> find_grid_size n (s + 1)"
      and b: "int n \<le> count_data_positions (find_grid_size n (s + 1))"
      and c: "\<And>g. s + 1 \<le> g \<Longrightarrow> g < find_grid_size n (s + 1) \<Longrightarrow> count_data_positions g < int n"
      by auto
    have "count_data_positions g < int n" if "s \<le> g" "g < find_grid_size n s" for g
    proof (cases "g = s")
      case True
      with \<open>count_data_positions s < int n\<close> show ?thesis by simp
    next
      case False
      with that unf show ?thesis by (intro c) simp_all
    qed
    with a b unf show ?thesis by simp
  next
    case False
    then have "find_grid_size n s = s"
      by (subst find_grid_size.simps) simp
    with False show ?thesis by simp
  qed
qed

lemma mono_square: "(a::nat) \<le> b \<Longrightarrow> int a * int a \<le> int b * int b"
  by (simp add: mult_mono)

subsection \<open>The nearest palette colour\<close>

lemma PALETTE_length: "length PALETTE = 8"
  by (simp add: PALETTE_def)

lemma closest_inv_step:
  assumes inv: "closest_inv c ps m (md, ci)" and m: "m < length ps"
  shows "closest_inv c ps (Suc m)
           (if (case md of None \<Rightarrow> True | Some d \<Rightarrow> color_dist c (ps ! m) < d)
            then (Some (color_dist c (ps ! m)), m) else (md, ci))"
proof (cases md)
  case None
  with inv have "m = 0"
    by (auto simp: closest_inv_def)
  with None show ?thesis
    by (simp add: closest_inv_def)
next
  case (Some d)
  with inv have ci: "ci < m" and d: "d = color_dist c (ps ! ci)"
    and all: "\<And>j. j < m \<Longrightarrow> d \<le> color_dist c (ps ! j)"
    and first: "\<And>j. j < ci \<Longrightarrow> d < color_dist c (ps ! j)"
    by (auto simp: closest_inv_def list_all_iff)
  show ?thesis
  proof (cases "color_dist c (ps ! m) < d")
    case True
    have "color_dist c (ps ! m) \<le> color_dist c (ps ! j)" if "j < Suc m" for j
      using that all [of j] True by (cases "j = m") auto
    moreover have "color_dist c (ps ! m) < color_dist c (ps ! j)" if "j < m" for j
      using that all [of j] True by auto
    ultimately show ?thesis
      using True Some by (simp add: closest_inv_def list_all_iff)
  next
    case False
    have "d \<le> color_dist c (ps ! j)" if "j < Suc m" for j
      using that all [of j] False by (cases "j = m") auto
    then show ?thesis
      using False Some ci d first by (auto simp add: closest_inv_def list_all_iff)
  qed
qed

lemma closest_loop_inv:
  "closest_inv c ps m st \<Longrightarrow> m + length xs = length ps \<Longrightarrow> xs = drop m ps \<Longrightarrow>
     closest_inv c ps (length ps) (closest_loop c (enumerate m xs) st)"
proof (induction xs arbitrary: m st)
  case Nil
  then show ?case by simp
next
  case (Cons x xs)
  obtain md ci where st: "st = (md, ci)"
    by (cases st)
  have m: "m < length ps"
    using Cons.prems(2) by simp
  have x: "x = ps ! m"
    using Cons.prems(3) m by (metis nth_via_drop)
  have xs: "xs = drop (Suc m) ps"
    using Cons.prems(3) by (metis drop_Suc tl_drop list.sel(3))
  let ?st' = "if (case md of None \<Rightarrow> True | Some d \<Rightarrow> color_dist c (ps ! m) < d)
            then (Some (color_dist c (ps ! m)), m) else (md, ci)"
  have "closest_inv c ps (Suc m) ?st'"
    using Cons.prems(1) m unfolding st by (rule closest_inv_step)
  then have "closest_inv c ps (length ps) (closest_loop c (enumerate (Suc m) xs) ?st')"
    using Cons.prems(2) xs by (intro Cons.IH) simp_all
  moreover have "closest_loop c (enumerate m (x # xs)) st = closest_loop c (enumerate (Suc m) xs) ?st'"
    by (simp add: st x Let_def)
  ultimately show ?case by simp
qed

lemma find_closest_color_inv:
  "closest_inv c PALETTE (length PALETTE) (closest_loop c (enumerate 0 PALETTE) (None, 0))"
  by (rule closest_loop_inv) (simp_all add: closest_inv_def)

lemma find_closest_color_nearest:
  "find_closest_color c < 8
   \<and> (\<forall>j<8. color_dist c (PALETTE ! find_closest_color c) \<le> color_dist c (PALETTE ! j))
   \<and> (\<forall>j<find_closest_color c.
         color_dist c (PALETTE ! find_closest_color c) < color_dist c (PALETTE ! j))"
proof -
  obtain md ci where r: "closest_loop c (enumerate 0 PALETTE) (None, 0) = (md, ci)"
    by (cases "closest_loop c (enumerate 0 PALETTE) (None, 0)")
  have "closest_inv c PALETTE 8 (md, ci)"
    using find_closest_color_inv [of c] by (simp add: r PALETTE_length)
  moreover have "find_closest_color c = ci"
    by (simp add: find_closest_color_def r)
  ultimately show ?thesis
    by (auto simp: closest_inv_def list_all_iff)
qed

lemma find_closest_color_palette:
  "s < 8 \<Longrightarrow> find_closest_color (PALETTE ! s) = s"
proof -
  assume "s < 8"
  then consider "s = 0" | "s = 1" | "s = 2" | "s = 3" | "s = 4" | "s = 5" | "s = 6" | "s = 7"
    by linarith
  then show ?thesis
    by cases (simp_all add: find_closest_color_def PALETTE_def enumerate_eq_zip upt_rec)
qed

subsection \<open>Marker colours and the marker test\<close>

lemma marker_top_left:
  "col < 3 \<Longrightarrow> row < 3 \<Longrightarrow>
     get_marker_color col row gw gh
       = Some (if (col + row) mod 2 = 0 then (255, 255, 255) else (0, 0, 0))"
  by (simp add: get_marker_color_def MARKER_SIZE_def)

lemma marker_top_right:
  "6 \<le> gw \<Longrightarrow> gw - 3 \<le> col \<Longrightarrow> row < 3 \<Longrightarrow>
     get_marker_color col row gw gh
       = Some (if (col - (gw - 3)) mod 2 = 0 then (0, 0, 0) else (255, 255, 255))"
  by (simp add: get_marker_color_def MARKER_SIZE_def Let_def)

lemma marker_bottom_left:
  "6 \<le> gh \<Longrightarrow> col < 3 \<Longrightarrow> gh - 3 \<le> row \<Longrightarrow>
     get_marker_color col row gw gh
       = Some (if (row - (gh - 3)) mod 2 = 0 then (0, 0, 0) else (255, 255, 255))"
  by (simp add: get_marker_color_def MARKER_SIZE_def Let_def)

lemma marker_bottom_right:
  "6 \<le> gw \<Longrightarrow> 6 \<le> gh \<Longrightarrow> gw - 3 \<le> col \<Longrightarrow> gh - 3 \<le> row \<Longrightarrow>
     get_marker_color col row gw gh
       = Some (if min (col - (gw - 3)) (min (row - (gh - 3))
                    (min (2 - (col - (gw - 3))) (2 - (row - (gh - 3))))) mod 2 = 0
               then (0, 0, 0) else (255, 255, 255))"
  by (simp add: get_marker_color_def MARKER_SIZE_def Let_def)

lemma marker_none_iff:
  "get_marker_color (int col) (int row) (int gw) (int gh) = None
     \<longleftrightarrow> \<not> is_marker_position col row gw gh"
  by (auto simp: get_marker_color_def is_marker_position_def MARKER_SIZE_def Let_def)

text \<open>On natural numbers the truncating subtraction gives the same marker test.\<close>

lemma is_marker_position_nat:
  "is_marker_position col row gw gh
     \<longleftrightarrow> (col < 3 \<and> row < 3) \<or> (gw - 3 \<le> col \<and> row < 3)
        \<or> (col < 3 \<and> gh - 3 \<le> row) \<or> (gw - 3 \<le> col \<and> gh - 3 \<le> row)"
  by (auto simp: is_marker_position_def MARKER_SIZE_def Let_def)

subsection \<open>Assigning symbols to data cells\<close>

lemma map_upds_append_drop:
  "m(xs @ ys [\<mapsto>] zs) = (m(xs [\<mapsto>] zs))(ys [\<mapsto>] drop (length xs) zs)"
proof (induction xs arbitrary: m zs)
  case Nil
  show ?case by simp
next
  case (Cons x xs)
  show ?case
  proof (cases zs)
    case Nil
    then show ?thesis by simp
  next
    case (Cons z zs')
    show ?thesis
      unfolding Cons by (simp only: append_Cons map_upds_Cons Cons.IH length_Cons drop_Suc_Cons)
  qed
qed

lemma row_data_cells_Nil: "row_data_cells gw gh row [] = []"
  by (simp add: row_data_cells_def)

lemma row_data_cells_Cons:
  "row_data_cells gw gh row (col # cols)
     = (if is_marker_position col row gw gh then row_data_cells gw gh row cols
        else (col, row) # row_data_cells gw gh row cols)"
  by (simp add: row_data_cells_def)

lemma assign_row_eq:
  "assign_row gw gh row cols (it, dg)
     = (drop (length (row_data_cells gw gh row cols)) it,
        dg(row_data_cells gw gh row cols [\<mapsto>] it))"
proof (induction cols arbitrary: it dg)
  case Nil
  show ?case by (simp add: row_data_cells_Nil)
next
  case (Cons col cols)
  show ?case
  proof (cases "is_marker_position col row gw gh")
    case True
    then show ?thesis
      by (simp add: row_data_cells_Cons Cons.IH)
  next
    case False
    show ?thesis
    proof (cases it)
      case Nil
      with False show ?thesis by (simp add: row_data_cells_Cons)
    next
      case (Cons idx it')
      have "assign_row gw gh row (col # cols) (it, dg)
          = assign_row gw gh row cols (it', dg((col, row) \<mapsto> idx))"
        using False by (simp add: Cons)
      also have "\<dots> = (drop (length (row_data_cells gw gh row cols)) it',
          (dg((col, row) \<mapsto> idx))(row_data_cells gw gh row cols [\<mapsto>] it'))"
        by (rule Cons.IH)
      also have "\<dots> = (drop (length (row_data_cells gw gh row (col # cols))) it,
          dg(row_data_cells gw gh row (col # cols) [\<mapsto>] it))"
        using False unfolding Cons
        by (simp only: row_data_cells_Cons if_False map_upds_Cons length_Cons drop_Suc_Cons)
      finally show ?thesis .
    qed
  qed
qed

lemma assign_rows_eq:
  "fold (\<lambda>row. assign_row gw gh row cols) rows (it, dg)
     = (drop (length (concat (map (\<lambda>row. row_data_cells gw gh row cols) rows))) it,
        dg(concat (map (\<lambda>row. row_data_cells gw gh row cols) rows) [\<mapsto>] it))"
proof (induction rows arbitrary: it dg)
  case Nil
  show ?case by simp
next
  case (Cons row rows)
  show ?case
    by (simp add: assign_row_eq Cons.IH map_upds_append_drop add.commute)
qed

lemma data_cells_rows:
  "concat (map (\<lambda>row. row_data_cells gw gh row [0..<gw]) [0..<gh]) = data_cells gw gh"
  by (simp add: data_cells_def grid_cells_def row_data_cells_def filter_concat filter_map
      comp_def)

lemma build_data_grid_eq:
  "build_data_grid gw gh syms = Map.empty(data_cells gw gh [\<mapsto>] syms)"
  by (simp add: build_data_grid_def assign_rows_eq data_cells_rows)

lemma map_upds_Some_cases:
  "(m(xs [\<mapsto>] ys)) c = Some s \<Longrightarrow> m c = Some s \<or> s \<in> set ys"
proof (induction xs arbitrary: m ys)
  case Nil
  then show ?case by simp
next
  case (Cons x xs)
  show ?case
  proof (cases ys)
    case Nil
    with Cons.prems show ?thesis by simp
  next
    case (Cons y ys')
    with Cons.prems have "((m(x \<mapsto> y))(xs [\<mapsto>] ys')) c = Some s"
      by simp
    from Cons.IH [OF this] Cons show ?thesis
      by (auto split: if_splits)
  qed
qed

lemma build_data_grid_range:
  "build_data_grid gw gh syms c = Some s \<Longrightarrow> s \<in> set syms"
  using map_upds_Some_cases [of Map.empty "data_cells gw gh" syms c s]
  by (simp add: build_data_grid_eq)

lemma map_upds_read_back:
  "distinct xs \<Longrightarrow> list_all (\<lambda>x. m x = None) xs \<Longrightarrow> length ys \<le> length xs \<Longrightarrow>
     map (\<lambda>x. case (m(xs [\<mapsto>] ys)) x of Some s \<Rightarrow> s | None \<Rightarrow> 0) xs
       = ys @ replicate (length xs - length ys) (0::nat)"
proof (induction xs arbitrary: m ys)
  case Nil
  then show ?case by simp
next
  case (Cons x xs)
  show ?case
  proof (cases ys)
    case Nil
    have "map (\<lambda>x. case m x of Some s \<Rightarrow> s | None \<Rightarrow> 0) (x # xs) = replicate (length (x # xs)) (0::nat)"
      using Cons.prems(2) by (intro map_replicate_const [THEN trans [rotated]] map_cong)
        (auto simp: list_all_iff)
    with Nil show ?thesis by simp
  next
    case (Cons y ys')
    have x: "x \<notin> set xs" and d: "distinct xs"
      using Cons.prems(1) by simp_all
    have none: "list_all (\<lambda>x'. (m(x \<mapsto> y)) x' = None) xs"
      using Cons.prems(2) x by (auto simp: list_all_iff)
    have len: "length ys' \<le> length xs"
      using Cons.prems(3) Cons by simp
    have e: "m(x # xs [\<mapsto>] y # ys') = (m(x \<mapsto> y))(xs [\<mapsto>] ys')"
      by (rule map_upds_Cons)
    have hd: "((m(x \<mapsto> y))(xs [\<mapsto>] ys')) x = Some y"
      using x by simp
    have tl: "map (\<lambda>x'. case ((m(x \<mapsto> y))(xs [\<mapsto>] ys')) x' of Some s \<Rightarrow> s | None \<Rightarrow> 0) xs
        = ys' @ replicate (length xs - length ys') 0"
      by (rule Cons.IH [OF d none len])
    show ?thesis
      unfolding Cons e list.map hd tl by simp
  qed
qed

lemma grid_cells_set: "set (grid_cells gw gh) = {..<gw} \<times> {..<gh}"
  by (auto simp: grid_cells_def)

lemma grid_cells_product:
  "grid_cells gw gh = map prod.swap (List.product [0..<gh] [0..<gw])"
  by (simp add: grid_cells_def product_concat_map map_concat comp_def)

lemma grid_cells_distinct: "distinct (grid_cells gw gh)"
  unfolding grid_cells_product
  by (simp add: distinct_map distinct_product inj_on_def)

lemma data_cells_distinct: "distinct (data_cells gw gh)"
  by (simp add: data_cells_def grid_cells_distinct)

lemma data_cells_set:
  "6 \<le> g \<Longrightarrow>
     set (data_cells g g) = ({..<g} \<times> {..<g}) - (({..<3} \<union> {g - 3..<g}) \<times> ({..<3} \<union> {g - 3..<g}))"
  by (auto simp: data_cells_def grid_cells_set is_marker_position_nat)

lemma data_cells_length:
  assumes g: "6 \<le> g"
  shows "length (data_cells g g) = g * g - 36"
proof -
  let ?C = "{..<3} \<union> {g - 3..<g}"
  have "card ?C = card {..<3::nat} + card {g - 3..<g}"
    using g by (intro card_Un_disjoint) auto
  then have c: "card ?C = 6"
    using g by simp
  have sub: "?C \<times> ?C \<subseteq> {..<g} \<times> {..<g}"
    using g by auto
  have "length (data_cells g g) = card (set (data_cells g g))"
    using data_cells_distinct by (simp add: distinct_card)
  also have "\<dots> = card (({..<g} \<times> {..<g}) - (?C \<times> ?C))"
    using g by (simp only: data_cells_set)
  also have "\<dots> = card ({..<g} \<times> {..<g}) - card (?C \<times> ?C)"
    using sub by (intro card_Diff_subset) (auto intro: finite_subset)
  also have "\<dots> = g * g - 36"
    by (simp only: card_cartesian_product c) simp
  finally show ?thesis .
qed

subsection \<open>Drawing and sampling cells\<close>

lemma draw_rectangle_size:
  "img_width (draw_rectangle img x0 y0 x1 y1 c) = img_width img"
  "img_height (draw_rectangle img x0 y0 x1 y1 c) = img_height img"
  by (simp_all add: draw_rectangle_def)

lemma draw_rectangle_center_same:
  "img_pixel (draw_rectangle img (col * PIXEL_SIZE) (row * PIXEL_SIZE)
       (col * PIXEL_SIZE + PIXEL_SIZE - 1) (row * PIXEL_SIZE + PIXEL_SIZE - 1) c)
     (col * PIXEL_SIZE + PIXEL_SIZE div 2, row * PIXEL_SIZE + PIXEL_SIZE div 2) = c"
  by (simp add: draw_rectangle_def PIXEL_SIZE_def)

lemma draw_rectangle_center_other:
  "(col', row') \<noteq> (col, row) \<Longrightarrow>
   img_pixel (draw_rectangle img (col' * PIXEL_SIZE) (row' * PIXEL_SIZE)
       (col' * PIXEL_SIZE + PIXEL_SIZE - 1) (row' * PIXEL_SIZE + PIXEL_SIZE - 1) c)
     (col * PIXEL_SIZE + PIXEL_SIZE div 2, row * PIXEL_SIZE + PIXEL_SIZE div 2)
   = img_pixel img (col * PIXEL_SIZE + PIXEL_SIZE div 2, row * PIXEL_SIZE + PIXEL_SIZE div 2)"
  by (auto simp: draw_rectangle_def PIXEL_SIZE_def)

lemma draw_cells_Cons_Inr:
  assumes "draw_cells dg gw gh ((col, row) # cells) img = Inr img'"
  obtains c where "cell_color dg gw gh col row = Inr c"
    and "draw_cells dg gw gh cells
           (draw_rectangle img (col * PIXEL_SIZE) (row * PIXEL_SIZE)
              (col * PIXEL_SIZE + PIXEL_SIZE - 1) (row * PIXEL_SIZE + PIXEL_SIZE - 1) c) = Inr img'"
  using assms by (cases "cell_color dg gw gh col row") (simp_all add: Let_def)

lemma draw_cells_size:
  "draw_cells dg gw gh cells img = Inr img' \<Longrightarrow>
     img_width img' = img_width img \<and> img_height img' = img_height img"
proof (induction cells arbitrary: img)
  case Nil
  then show ?case by simp
next
  case (Cons cell cells)
  obtain col row where cell: "cell = (col, row)"
    by (cases cell)
  from Cons.prems obtain c where
    "draw_cells dg gw gh cells
           (draw_rectangle img (col * PIXEL_SIZE) (row * PIXEL_SIZE)
              (col * PIXEL_SIZE + PIXEL_SIZE - 1) (row * PIXEL_SIZE + PIXEL_SIZE - 1) c) = Inr img'"
    unfolding cell by (rule draw_cells_Cons_Inr)
  from Cons.IH [OF this] show ?case
    by (simp add: draw_rectangle_size)
qed

lemma draw_cells_untouched:
  "draw_cells dg gw gh cells img = Inr img' \<Longrightarrow> (col, row) \<notin> set cells \<Longrightarrow>
     img_pixel img' (col * PIXEL_SIZE + PIXEL_SIZE div 2, row * PIXEL_SIZE + PIXEL_SIZE div 2)
       = img_pixel img (col * PIXEL_SIZE + PIXEL_SIZE div 2, row * PIXEL_SIZE + PIXEL_SIZE div 2)"
proof (induction cells arbitrary: img)
  case Nil
  then show ?case by simp
next
  case (Cons cell cells)
  obtain col' row' where cell: "cell = (col', row')"
    by (cases cell)
  from Cons.prems(1) obtain c where
    d: "draw_cells dg gw gh cells
           (draw_rectangle img (col' * PIXEL_SIZE) (row' * PIXEL_SIZE)
              (col' * PIXEL_SIZE + PIXEL_SIZE - 1) (row' * PIXEL_SIZE + PIXEL_SIZE - 1) c) = Inr img'"
    unfolding cell by (rule draw_cells_Cons_Inr)
  have ne: "(col', row') \<noteq> (col, row)" and notin: "(col, row) \<notin> set cells"
    using Cons.prems(2) cell by auto
  show ?case
    unfolding Cons.IH [OF d notin] by (rule draw_rectangle_center_other [OF ne])
qed

lemma draw_cells_center:
  "draw_cells dg gw gh cells img = Inr img' \<Longrightarrow> distinct cells \<Longrightarrow> (col, row) \<in> set cells \<Longrightarrow>
     cell_color dg gw gh col row
       = Inr (img_pixel img' (col * PIXEL_SIZE + PIXEL_SIZE div 2, row * PIXEL_SIZE + PIXEL_SIZE div 2))"
proof (induction cells arbitrary: img)
  case Nil
  then show ?case by simp
next
  case (Cons cell cells)
  obtain col' row' where cell: "cell = (col', row')"
    by (cases cell)
  from Cons.prems(1) obtain c where
    cc: "cell_color dg gw gh col' row' = Inr c" and
    d: "draw_cells dg gw gh cells
           (draw_rectangle img (col' * PIXEL_SIZE) (row' * PIXEL_SIZE)
              (col' * PIXEL_SIZE + PIXEL_SIZE - 1) (row' * PIXEL_SIZE + PIXEL_SIZE - 1) c) = Inr img'"
    unfolding cell by (rule draw_cells_Cons_Inr)
  show ?case
  proof (cases "(col, row) = (col', row')")
    case True
    then have "(col', row') \<notin> set cells"
      using Cons.prems(2) cell by simp
    note draw_cells_untouched [OF d this]
    also note draw_rectangle_center_same
    finally have "img_pixel img'
        (col' * PIXEL_SIZE + PIXEL_SIZE div 2, row' * PIXEL_SIZE + PIXEL_SIZE div 2) = c" .
    with True cc show ?thesis by simp
  next
    case False
    then have "(col, row) \<in> set cells"
      using Cons.prems(3) cell by auto
    moreover have "distinct cells"
      using Cons.prems(2) by simp
    ultimately show ?thesis
      using d by (intro Cons.IH)
  qed
qed

lemma draw_cells_total:
  "list_all (\<lambda>cell. \<exists>c. cell_color dg gw gh (fst cell) (snd cell) = Inr c) cells \<Longrightarrow>
     \<exists>img'. draw_cells dg gw gh cells img = Inr img'"
proof (induction cells arbitrary: img)
  case Nil
  show ?case by simp
next
  case (Cons cell cells)
  obtain col row where cell: "cell = (col, row)"
    by (cases cell)
  from Cons.prems obtain c where c: "cell_color dg gw gh col row = Inr c"
    and rest: "list_all (\<lambda>cell. \<exists>c. cell_color dg gw gh (fst cell) (snd cell) = Inr c) cells"
    by (auto simp: cell)
  from Cons.IH [OF rest] show ?case
    by (simp add: cell c Let_def)
qed

lemma sample_cells_eq:
  "list_all (\<lambda>cell. is_marker_position (fst cell) (snd cell) gw gh
       \<or> getpixel img (fst cell * PIXEL_SIZE + PIXEL_SIZE div 2,
                       snd cell * PIXEL_SIZE + PIXEL_SIZE div 2) = Inr (f cell)) cells \<Longrightarrow>
     sample_cells img gw gh cells
       = Inr (map (\<lambda>cell. find_closest_color (f cell))
               (filter (\<lambda>cell. \<not> is_marker_position (fst cell) (snd cell) gw gh) cells))"
proof (induction cells)
  case Nil
  show ?case by simp
next
  case (Cons cell cells)
  obtain col row where cell: "cell = (col, row)"
    by (cases cell)
  from Cons.prems have
    rest: "list_all (\<lambda>cell. is_marker_position (fst cell) (snd cell) gw gh
       \<or> getpixel img (fst cell * PIXEL_SIZE + PIXEL_SIZE div 2,
                       snd cell * PIXEL_SIZE + PIXEL_SIZE div 2) = Inr (f cell)) cells"
    and this_cell: "is_marker_position col row gw gh
       \<or> getpixel img (col * PIXEL_SIZE + PIXEL_SIZE div 2,
                       row * PIXEL_SIZE + PIXEL_SIZE div 2) = Inr (f (col, row))"
    by (simp_all add: cell)
  note ih = Cons.IH [OF rest]
  show ?case
  proof (cases "is_marker_position col row gw gh")
    case True
    then show ?thesis by (simp add: cell ih)
  next
    case False
    with this_cell show ?thesis by (simp add: cell ih Let_def)
  qed
qed

subsection \<open>From the symbols to the image and back\<close>

lemma find_closest_color_black: "find_closest_color (0, 0, 0) = 0"
  using find_closest_color_palette [of 0] by (simp add: PALETTE_def)

lemma cell_color_data:
  assumes "\<not> is_marker_position col row gw gh"
    and "\<And>s. dg (col, row) = Some s \<Longrightarrow> s < 8"
  shows "cell_color dg gw gh col row
           = Inr (case dg (col, row) of Some s \<Rightarrow> PALETTE ! s | None \<Rightarrow> (0, 0, 0))"
proof -
  have "get_marker_color (int col) (int row) (int gw) (int gh) = None"
    using assms(1) by (simp add: marker_none_iff)
  then show ?thesis
    using assms(2)
    by (cases "dg (col, row)") (simp_all add: cell_color_def palette_lookup_def PALETTE_length)
qed

lemma cell_color_total:
  assumes "\<And>s. dg (col, row) = Some s \<Longrightarrow> s < 8"
  shows "\<exists>c. cell_color dg gw gh col row = Inr c"
proof (cases "is_marker_position col row gw gh")
  case True
  then obtain c where "get_marker_color (int col) (int row) (int gw) (int gh) = Some c"
    using marker_none_iff [of col row gw gh] by auto
  then have "cell_color dg gw gh col row = Inr c"
    by (simp add: cell_color_def)
  then show ?thesis ..
next
  case False
  then have "cell_color dg gw gh col row
           = Inr (case dg (col, row) of Some s \<Rightarrow> PALETTE ! s | None \<Rightarrow> (0, 0, 0))"
    using assms by (rule cell_color_data)
  then show ?thesis ..
qed

lemma canvas_roundtrip:
  assumes below: "\<And>s. s \<in> set syms \<Longrightarrow> s < 8"
    and g: "6 \<le> g"
    and fits: "length syms \<le> g * g - 36"
  shows "\<exists>img. draw_cells (build_data_grid g g syms) g g (grid_cells g g)
                  (new_image (g * PIXEL_SIZE) (g * PIXEL_SIZE)) = Inr img
             \<and> img_width img = g * PIXEL_SIZE \<and> img_height img = g * PIXEL_SIZE
             \<and> sample_cells img g g (grid_cells g g)
                 = Inr (syms @ replicate (g * g - 36 - length syms) 0)"
proof -
  let ?dg = "build_data_grid g g syms"
  let ?f = "\<lambda>cell. case ?dg cell of Some s \<Rightarrow> PALETTE ! s | None \<Rightarrow> (0, 0, 0)"
  have dg8: "s < 8" if "?dg cell = Some s" for cell s
    using build_data_grid_range [OF that] below by simp
  have "list_all (\<lambda>cell. \<exists>c. cell_color ?dg g g (fst cell) (snd cell) = Inr c) (grid_cells g g)"
    unfolding list_all_iff
  proof
    fix cell
    show "\<exists>c. cell_color ?dg g g (fst cell) (snd cell) = Inr c"
      by (rule cell_color_total) (simp add: dg8)
  qed
  then obtain img where img:
    "draw_cells ?dg g g (grid_cells g g) (new_image (g * PIXEL_SIZE) (g * PIXEL_SIZE)) = Inr img"
    using draw_cells_total by blast
  have size: "img_width img = g * PIXEL_SIZE" "img_height img = g * PIXEL_SIZE"
    using draw_cells_size [OF img] by (simp_all add: new_image_def)
  have "list_all (\<lambda>cell. is_marker_position (fst cell) (snd cell) g g
       \<or> getpixel img (fst cell * PIXEL_SIZE + PIXEL_SIZE div 2,
                       snd cell * PIXEL_SIZE + PIXEL_SIZE div 2) = Inr (?f cell)) (grid_cells g g)"
    unfolding list_all_iff
  proof
    fix cell
    assume mem: "cell \<in> set (grid_cells g g)"
    obtain col row where cell: "cell = (col, row)"
      by (cases cell)
    from mem cell have bounds: "col < g" "row < g"
      by (simp_all add: grid_cells_set)
    have inside: "col * PIXEL_SIZE + PIXEL_SIZE div 2 < g * PIXEL_SIZE"
        "row * PIXEL_SIZE + PIXEL_SIZE div 2 < g * PIXEL_SIZE"
      using bounds by (simp_all add: PIXEL_SIZE_def)
    have px: "cell_color ?dg g g col row
        = Inr (img_pixel img (col * PIXEL_SIZE + PIXEL_SIZE div 2, row * PIXEL_SIZE + PIXEL_SIZE div 2))"
      using img grid_cells_distinct mem unfolding cell by (rule draw_cells_center)
    show "is_marker_position (fst cell) (snd cell) g g
       \<or> getpixel img (fst cell * PIXEL_SIZE + PIXEL_SIZE div 2,
                       snd cell * PIXEL_SIZE + PIXEL_SIZE div 2) = Inr (?f cell)"
    proof (cases "is_marker_position col row g g")
      case True
      then show ?thesis by (simp add: cell)
    next
      case False
      have "cell_color ?dg g g col row = Inr (?f (col, row))"
        by (rule cell_color_data [OF False]) (rule dg8)
      with px have "img_pixel img (col * PIXEL_SIZE + PIXEL_SIZE div 2, row * PIXEL_SIZE + PIXEL_SIZE div 2)
          = ?f (col, row)"
        by simp
      then show ?thesis
        using inside by (simp add: cell getpixel_def size)
    qed
  qed
  then have "sample_cells img g g (grid_cells g g)
      = Inr (map (\<lambda>cell. find_closest_color (?f cell)) (data_cells g g))"
    unfolding data_cells_def by (rule sample_cells_eq)
  moreover have "find_closest_color (?f cell) = (case ?dg cell of Some s \<Rightarrow> s | None \<Rightarrow> 0)" for cell
    by (cases "?dg cell") (simp_all add: find_closest_color_black find_closest_color_palette dg8)
  moreover have "map (\<lambda>cell. case ?dg cell of Some s \<Rightarrow> s | None \<Rightarrow> 0) (data_cells g g)
      = syms @ replicate (length (data_cells g g) - length syms) 0"
    unfolding build_data_grid_eq
    by (rule map_upds_read_back)
      (simp_all add: data_cells_distinct list_all_iff data_cells_length g fits)
  ultimately have "sample_cells img g g (grid_cells g g)
      = Inr (syms @ replicate (g * g - 36 - length syms) 0)"
    by (simp add: data_cells_length g)
  with img size show ?thesis by blast
qed

subsection \<open>The frame header\<close>

lemma unat_byte_of_nat: "unat (of_nat n :: byte) = n mod 256"
  by (simp add: unat_of_nat)

lemma unpack_pack_u32:
  assumes "n < 2 ^ 32"
  shows "unpack_u32 (pack_u32 n) = n"
proof -
  have d3: "n div 2 ^ 24 < 256"
    using assms by (simp add: less_mult_imp_div_less)
  have s1: "n div 2 ^ 8 = 256 * (n div 2 ^ 16) + n div 2 ^ 8 mod 256"
  proof -
    have "n div 2 ^ 16 = n div 2 ^ 8 div 256"
      by (simp add: div_mult2_eq [symmetric])
    then show ?thesis by simp
  qed
  have s2: "n div 2 ^ 16 = 256 * (n div 2 ^ 24) + n div 2 ^ 16 mod 256"
  proof -
    have "n div 2 ^ 24 = n div 2 ^ 16 div 256"
      by (simp add: div_mult2_eq [symmetric])
    then show ?thesis by simp
  qed
  have s0: "n = 256 * (n div 2 ^ 8) + n mod 256"
    by simp
  have "unpack_u32 (pack_u32 n)
      = 256 * (256 * (256 * (n div 2 ^ 24) + n div 2 ^ 16 mod 256) + n div 2 ^ 8 mod 256)
          + n mod 256"
    using d3 by (simp add: unpack_u32_def pack_u32_def unat_byte_of_nat)
  also have "\<dots> = 256 * (256 * (n div 2 ^ 16) + n div 2 ^ 8 mod 256) + n mod 256"
    using s2 by simp
  also have "\<dots> = 256 * (n div 2 ^ 8) + n mod 256"
    using s1 by simp
  also have "\<dots> = n"
    using s0 by simp
  finally show ?thesis .
qed

lemma length_pack_u32: "length (pack_u32 n) = 4"
  by (simp add: pack_u32_def)

lemma struct_pack_Inr:
  "a < 2 ^ 32 \<Longrightarrow> b < 2 ^ 32 \<Longrightarrow> c < 2 ^ 32 \<Longrightarrow>
     struct_pack a b c flag = Inr (pack_u32 a @ pack_u32 b @ pack_u32 c @ [if flag then 1 else 0])"
  by (simp add: struct_pack_def)

lemma struct_unpack_pack:
  assumes "a < 2 ^ 32" "b < 2 ^ 32" "c < 2 ^ 32"
  shows "struct_unpack (pack_u32 a @ pack_u32 b @ pack_u32 c @ [if flag then 1 else 0])
           = Inr (a, b, c, flag)"
proof -
  let ?h = "pack_u32 a @ pack_u32 b @ pack_u32 c @ [if flag then 1 else 0 :: byte]"
  have "length ?h = 13"
    by (simp add: length_pack_u32)
  moreover have "take 4 ?h = pack_u32 a"
    by (simp add: length_pack_u32)
  moreover have "take 4 (drop 4 ?h) = pack_u32 b"
    by (simp add: length_pack_u32)
  moreover have "take 4 (drop 8 ?h) = pack_u32 c"
    by (simp add: length_pack_u32)
  moreover have "?h ! 12 \<noteq> 0 \<longleftrightarrow> flag"
    by (simp add: nth_append length_pack_u32)
  ultimately show ?thesis
    using assms by (simp add: struct_unpack_def unpack_pack_u32)
qed

lemma crc_below: "unat (crc32 data AND 0xFFFFFFFF) < 2 ^ 32"
  using unsigned_less [of "crc32 data AND 0xFFFFFFFF"] by simp

lemma decode_frame_framed:
  assumes h: "struct_unpack header = Inr (length data, original_size, unat (crc32 data AND 0xFFFFFFFF), flag)"
    and len: "length header = 13"
  shows "snd (decode_frame decompress_data (header @ data @ extra) output_file verbose)
           = (if flag then (case decompress_data data of None \<Rightarrow> Inl ZlibError | Some out \<Rightarrow> Inr out)
              else Inr data)"
proof -
  have "take 13 (header @ data @ extra) = header"
    using len by simp
  moreover have "take (length data) (drop 13 (header @ data @ extra)) = data"
    using len by simp
  moreover have "\<not> length (header @ data @ extra) < 13"
    using len by simp
  ultimately show ?thesis
    by (simp add: decode_frame_def h Let_def split: option.split)
qed

subsection \<open>Lengths of the packed sequence\<close>

lemma length_bytes_to_bits: "length (bytes_to_bits bs) = 8 * length bs"
  by (induction bs) (simp_all add: bytes_to_bits_def length_byte_bits)

lemma length_pad_bits: "length (pad_bits bits) = 3 * ((length bits + 2) div 3)"
proof (induction bits rule: pad_bits.induct)
  case (1 bits)
  show ?case
  proof (cases "length bits mod 3 \<noteq> 0")
    case True
    then have "pad_bits bits = pad_bits (bits @ [False])"
      by (subst pad_bits.simps) simp
    then have "length (pad_bits bits) = 3 * ((length bits + 3) div 3)"
      using "1.IH" [OF True] by (simp add: add.commute)
    moreover have "(length bits + 3) div 3 = (length bits + 2) div 3"
      using True by presburger
    ultimately show ?thesis by simp
  next
    case False
    then have "pad_bits bits = bits"
      by (subst pad_bits.simps) simp
    moreover have "3 * ((length bits + 2) div 3) = length bits"
      using False by presburger
    ultimately show ?thesis by simp
  qed
qed

lemma length_bits_to_indices:
  "length (bits_to_indices bits i) = (length bits - i + 2) div 3"
proof (induction bits i rule: bits_to_indices.induct)
  case (1 bits i)
  show ?case
  proof (cases "i < length bits")
    case True
    then have "bits_to_indices bits i
        = int2 (take 3 (drop i bits)) # bits_to_indices bits (i + 3)"
      by (subst bits_to_indices.simps) simp
    then have "length (bits_to_indices bits i) = Suc ((length bits - (i + 3) + 2) div 3)"
      using "1.IH" [OF True] by simp
    moreover have "Suc ((length bits - (i + 3) + 2) div 3) = (length bits - i + 2) div 3"
      using True by presburger
    ultimately show ?thesis by simp
  next
    case False
    then have "bits_to_indices bits i = []"
      by (subst bits_to_indices.simps) simp
    with False show ?thesis by simp
  qed
qed

lemma length_pack: "length (pack bs) = (8 * length bs + 2) div 3"
  by (simp add: pack_def length_bits_to_indices length_pad_bits length_bytes_to_bits)

subsection \<open>Encoding, then decoding\<close>

lemma encode_decode:
  assumes orig: "length input_data < 2 ^ 32"
    and body: "length (if compress then compress_data input_data else input_data) < 2 ^ 32"
    and nz: "\<not> (compress \<and> verbose \<and> input_data = [])"
  shows "\<exists>img. file_to_image compress_data input_data compress verbose = Inr img
           \<and> img_width img
               = find_grid_size
                   ((8 * (13 + length (if compress then compress_data input_data else input_data))
                      + 2) div 3) (2 * MARKER_SIZE) * PIXEL_SIZE
           \<and> img_height img = img_width img
           \<and> snd (image_to_file decompress_data img output_file verbose')
               = (if compress
                  then (case decompress_data (compress_data input_data) of
                          None \<Rightarrow> Inl ZlibError | Some out \<Rightarrow> Inr out)
                  else Inr input_data)"
proof -
  define data where "data = (if compress then compress_data input_data else input_data)"
  define checksum where "checksum = unat (crc32 data AND 0xFFFFFFFF)"
  define header where
    "header = pack_u32 (length data) @ pack_u32 (length input_data) @ pack_u32 checksum
                @ [if compress then 1 else 0 :: byte]"
  define syms where "syms = pack (header @ data)"
  define g where "g = find_grid_size (length syms) (2 * MARKER_SIZE)"
  have body': "length data < 2 ^ 32"
    using body by (simp add: data_def)
  have crc: "checksum < 2 ^ 32"
    unfolding checksum_def by (rule crc_below)
  have sp: "struct_pack (length data) (length input_data) checksum compress = Inr header"
    unfolding header_def using body' orig crc by (rule struct_pack_Inr)
  have su: "struct_unpack header = Inr (length data, length input_data, checksum, compress)"
    unfolding header_def using body' orig crc by (rule struct_unpack_pack)
  have hl: "length header = 13"
    by (simp add: header_def length_pack_u32)
  note p = find_grid_size_props [of "2 * MARKER_SIZE" "length syms"]
  have g6: "6 \<le> g"
    using p by (simp add: g_def MARKER_SIZE_def)
  have "int (length syms) \<le> int g * int g - 36"
    using p by (simp add: g_def count_data_positions_eq)
  then have "int (length syms + 36) \<le> int (g * g)"
    by simp
  then have "length syms + 36 \<le> g * g"
    by (simp only: of_nat_le_iff)
  then have fits: "length syms \<le> g * g - 36"
    by simp
  have below: "s < 8" if "s \<in> set syms" for s
    using that unfolding syms_def by (rule pack_below)
  define j where "j = g * g - 36 - length syms"
  from canvas_roundtrip [OF below g6 fits, folded j_def] obtain img where
    draw: "draw_cells (build_data_grid g g syms) g g (grid_cells g g)
                  (new_image (g * PIXEL_SIZE) (g * PIXEL_SIZE)) = Inr img"
    and w: "img_width img = g * PIXEL_SIZE" and h: "img_height img = g * PIXEL_SIZE"
    and sample: "sample_cells img g g (grid_cells g g) = Inr (syms @ replicate j 0)"
    by blast
  have enc: "file_to_image compress_data input_data compress verbose = Inr img"
    using nz sp draw
    by (simp add: file_to_image_def Let_def data_def [symmetric] checksum_def [symmetric]
        syms_def [symmetric] g_def [symmetric])
  obtain extra where
    unp: "unpack (syms @ replicate j 0) = (header @ data) @ extra"
    using unpack_pack_padding [of "header @ data" j]
    unfolding syms_def by (elim exE)
  have gw: "img_width img div PIXEL_SIZE = g" "img_height img div PIXEL_SIZE = g"
    by (simp_all add: w h PIXEL_SIZE_def)
  have "snd (image_to_file decompress_data img output_file verbose')
      = snd (decode_frame decompress_data (header @ data @ extra) output_file verbose')"
    by (simp add: image_to_file_def Let_def gw sample unp)
  also have "\<dots> = (if compress
                  then (case decompress_data data of None \<Rightarrow> Inl ZlibError | Some out \<Rightarrow> Inr out)
                  else Inr data)"
    using su [unfolded checksum_def] hl by (rule decode_frame_framed)
  finally have dec: "snd (image_to_file decompress_data img output_file verbose')
      = (if compress
         then (case decompress_data data of None \<Rightarrow> Inl ZlibError | Some out \<Rightarrow> Inr out)
         else Inr data)" .
  then have dec': "snd (image_to_file decompress_data img output_file verbose')
      = (if compress
         then (case decompress_data (compress_data input_data) of
                 None \<Rightarrow> Inl ZlibError | Some out \<Rightarrow> Inr out)
         else Inr input_data)"
    by (simp add: data_def)
  have "length syms = (8 * (13 + length data) + 2) div 3"
    by (simp add: syms_def length_pack hl)
  then have "g = find_grid_size ((8 * (13 + length data) + 2) div 3) (2 * MARKER_SIZE)"
    by (simp only: g_def)
  then have W: "img_width img
      = find_grid_size
          ((8 * (13 + length (if compress then compress_data input_data else input_data)) + 2)
             div 3) (2 * MARKER_SIZE) * PIXEL_SIZE"
    unfolding data_def by (simp only: w)
  have H: "img_height img = img_width img"
    by (simp only: w h)
  from enc W H dec' show ?thesis
    by (intro exI [of _ img] conjI)
qed

subsection \<open>The decoder from the unpacked bytes on\<close>

lemma sample_cells_grid:
  assumes "gw * PIXEL_SIZE \<le> img_width img" and "gh * PIXEL_SIZE \<le> img_height img"
  shows "sample_cells img gw gh (grid_cells gw gh)
           = Inr (map (\<lambda>cell. find_closest_color
                      (img_pixel img (fst cell * PIXEL_SIZE + PIXEL_SIZE div 2,
                                      snd cell * PIXEL_SIZE + PIXEL_SIZE div 2)))
                    (data_cells gw gh))"
proof -
  have "list_all (\<lambda>cell. is_marker_position (fst cell) (snd cell) gw gh
       \<or> getpixel img (fst cell * PIXEL_SIZE + PIXEL_SIZE div 2,
                       snd cell * PIXEL_SIZE + PIXEL_SIZE div 2)
           = Inr (img_pixel img (fst cell * PIXEL_SIZE + PIXEL_SIZE div 2,
                                 snd cell * PIXEL_SIZE + PIXEL_SIZE div 2))) (grid_cells gw gh)"
    unfolding list_all_iff
  proof
    fix cell
    assume "cell \<in> set (grid_cells gw gh)"
    then have b: "fst cell < gw" "snd cell < gh"
      by (auto simp: grid_cells_set)
    have "fst cell * PIXEL_SIZE + PIXEL_SIZE div 2 < gw * PIXEL_SIZE"
      using b(1) by (simp add: PIXEL_SIZE_def)
    moreover have "snd cell * PIXEL_SIZE + PIXEL_SIZE div 2 < gh * PIXEL_SIZE"
      using b(2) by (simp add: PIXEL_SIZE_def)
    ultimately have "getpixel img (fst cell * PIXEL_SIZE + PIXEL_SIZE div 2,
                       snd cell * PIXEL_SIZE + PIXEL_SIZE div 2)
           = Inr (img_pixel img (fst cell * PIXEL_SIZE + PIXEL_SIZE div 2,
                                 snd cell * PIXEL_SIZE + PIXEL_SIZE div 2))"
      using assms by (simp add: getpixel_def)
    then show "is_marker_position (fst cell) (snd cell) gw gh
       \<or> getpixel img (fst cell * PIXEL_SIZE + PIXEL_SIZE div 2,
                       snd cell * PIXEL_SIZE + PIXEL_SIZE div 2)
           = Inr (img_pixel img (fst cell * PIXEL_SIZE + PIXEL_SIZE div 2,
                                 snd cell * PIXEL_SIZE + PIXEL_SIZE div 2))" ..
  qed
  then show ?thesis
    unfolding data_cells_def by (rule sample_cells_eq)
qed

lemma div_times_le: "(w::nat) div PIXEL_SIZE * PIXEL_SIZE \<le> w"
  by (simp add: PIXEL_SIZE_def)

lemma sampled_bytes_eq:
  "sampled_bytes img
     = Inr (unpack (map (\<lambda>cell. find_closest_color
                      (img_pixel img (fst cell * PIXEL_SIZE + PIXEL_SIZE div 2,
                                      snd cell * PIXEL_SIZE + PIXEL_SIZE div 2)))
                    (data_cells (img_width img div PIXEL_SIZE) (img_height img div PIXEL_SIZE))))"
  by (simp add: sampled_bytes_def Let_def sample_cells_grid [OF div_times_le div_times_le])

lemma image_to_file_sampled:
  assumes "sampled_bytes img = Inr byte_array"
  shows "image_to_file decompress_data img output_file verbose
           = ((if verbose
               then [Decoding_grid (img_width img div PIXEL_SIZE) (img_height img div PIXEL_SIZE)]
               else [])
                @ fst (decode_frame decompress_data byte_array output_file verbose),
              snd (decode_frame decompress_data byte_array output_file verbose))"
  using assms
  by (simp add: sampled_bytes_def image_to_file_def Let_def split: sum.splits)

lemma struct_unpack_13:
  "length bs = 13 \<Longrightarrow>
     struct_unpack bs = Inr (unpack_u32 (take 4 bs), unpack_u32 (take 4 (drop 4 bs)),
                unpack_u32 (take 4 (drop 8 bs)), bs ! 12 \<noteq> 0)"
  by (simp add: struct_unpack_def)

lemma decode_frame_result:
  assumes "13 \<le> length byte_array"
    and "struct_unpack (take 13 byte_array) = Inr (n, original_size, expected_crc, flag)"
  shows "snd (decode_frame decompress_data byte_array output_file verbose)
           = (if flag
              then (case decompress_data (take n (drop 13 byte_array)) of
                      None \<Rightarrow> Inl ZlibError | Some out \<Rightarrow> Inr out)
              else Inr (take n (drop 13 byte_array)))"
  using assms by (simp add: decode_frame_def Let_def split: option.split)

lemma decode_frame_warning:
  assumes "13 \<le> length byte_array"
    and "struct_unpack (take 13 byte_array) = Inr (n, original_size, expected_crc, flag)"
  shows "CRC_mismatch_warning \<in> set (fst (decode_frame decompress_data byte_array output_file verbose))
           \<longleftrightarrow> verbose \<and> unat (crc32 (take n (drop 13 byte_array)) AND 0xFFFFFFFF) \<noteq> expected_crc"
  using assms
  by (auto simp: decode_frame_def Let_def final_lines_def split: option.split)

lemma decode_frame_raw_length:
  assumes "13 \<le> length byte_array" and "length r = 4"
  shows "decode_frame decompress_data (take 4 byte_array @ r @ drop 8 byte_array) output_file verbose
           = decode_frame decompress_data byte_array output_file verbose"
proof -
  let ?b = "take 4 byte_array @ r @ drop 8 byte_array"
  have len: "length ?b = length byte_array"
    using assms by simp
  have t4: "take 4 (take 13 ?b) = take 4 (take 13 byte_array)"
    using assms by simp
  have t8: "take 4 (drop 8 (take 13 ?b)) = take 4 (drop 8 (take 13 byte_array))"
    using assms by (simp add: drop_take)
  have n12: "take 13 ?b ! 12 = take 13 byte_array ! 12"
    using assms by (simp add: nth_append)
  have d13: "drop 13 ?b = drop 13 byte_array"
    using assms by simp
  have l13: "length (take 13 ?b) = 13" "length (take 13 byte_array) = 13"
    using assms by simp_all
  have su: "struct_unpack (take 13 ?b)
      = Inr (unpack_u32 (take 4 (take 13 byte_array)), unpack_u32 (take 4 (drop 4 (take 13 ?b))),
             unpack_u32 (take 4 (drop 8 (take 13 byte_array))), take 13 byte_array ! 12 \<noteq> 0)"
    by (simp only: struct_unpack_13 [OF l13(1)] t4 t8 n12)
  have su': "struct_unpack (take 13 byte_array)
      = Inr (unpack_u32 (take 4 (take 13 byte_array)),
             unpack_u32 (take 4 (drop 4 (take 13 byte_array))),
             unpack_u32 (take 4 (drop 8 (take 13 byte_array))), take 13 byte_array ! 12 \<noteq> 0)"
    by (rule struct_unpack_13 [OF l13(2)])
  show ?thesis
    unfolding decode_frame_def len su su' d13 by (simp add: Let_def)
qed

subsection \<open>The size of the image and the limit of Image.open\<close>

lemma find_grid_size_le:
  assumes "2 * MARKER_SIZE \<le> k" and "int n \<le> count_data_positions k"
  shows "find_grid_size n (2 * MARKER_SIZE) \<le> k"
proof (rule ccontr)
  assume "\<not> find_grid_size n (2 * MARKER_SIZE) \<le> k"
  then have "k < find_grid_size n (2 * MARKER_SIZE)"
    by simp
  with find_grid_size_props [of "2 * MARKER_SIZE" n] assms(1)
  have "count_data_positions k < int n"
    by blast
  with assms(2) show False
    by simp
qed

lemma find_grid_size_ge:
  assumes "count_data_positions k < int n"
  shows "k < find_grid_size n (2 * MARKER_SIZE)"
proof (rule ccontr)
  assume "\<not> k < find_grid_size n (2 * MARKER_SIZE)"
  then have "find_grid_size n (2 * MARKER_SIZE) \<le> k"
    by simp
  then have "int (find_grid_size n (2 * MARKER_SIZE)) * int (find_grid_size n (2 * MARKER_SIZE))
      \<le> int k * int k"
    by (rule mono_square)
  then have "count_data_positions (find_grid_size n (2 * MARKER_SIZE)) \<le> count_data_positions k"
    by (simp add: count_data_positions_eq)
  moreover have "int n \<le> count_data_positions (find_grid_size n (2 * MARKER_SIZE))"
    using find_grid_size_props [of "2 * MARKER_SIZE" n] by simp
  ultimately show False
    using assms by simp
qed

lemma image_open_small:
  assumes "img_width img = g * PIXEL_SIZE" and "img_height img = g * PIXEL_SIZE" and "g \<le> 1672"
  shows "image_open img = Inr img"
proof -
  have "g * PIXEL_SIZE \<le> 13376"
    using assms(3) by (simp add: PIXEL_SIZE_def)
  then have m: "max 1 (g * PIXEL_SIZE) \<le> 13376"
    by simp
  have "max 1 (g * PIXEL_SIZE) * max 1 (g * PIXEL_SIZE) \<le> 13376 * 13376"
    using m m by (rule mult_le_mono)
  then have "max 1 (g * PIXEL_SIZE) * max 1 (g * PIXEL_SIZE) \<le> 2 * MAX_IMAGE_PIXELS"
    by (simp add: MAX_IMAGE_PIXELS_def)
  then show ?thesis
    by (simp add: image_open_def assms(1,2) Let_def)
qed

lemma symbols_of_body:
  assumes "n \<le> 1048317"
  shows "int ((8 * (13 + n) + 2) div 3) \<le> count_data_positions 1672"
proof -
  have "8 * (13 + n) + 2 \<le> 8386642"
    using assms by simp
  then have "(8 * (13 + n) + 2) div 3 \<le> 8386642 div 3"
    by (rule div_le_mono)
  then have "(8 * (13 + n) + 2) div 3 \<le> 2795547"
    by simp
  then show ?thesis
    by (simp add: count_data_positions_eq)
qed

section \<open>The claims\<close>

subsection \<open>C4: the grid size is the smallest that fits\<close>

text \<open>
  Claim C4. For every symbol count, with \<open>marker_size = 3\<close>, the grid size the encoder
  computes (the loop of lines 83-85, started at \<open>2 * MARKER_SIZE\<close>) is the smallest
  \<open>g \<ge> 2 * marker_size\<close> with \<open>g * g - 4 * marker_size * marker_size \<ge> symbol_count\<close>:
  it is at least \<open>2 * marker_size\<close>, it fits the symbols, and every such \<open>g\<close> that fits
  them is at least as large.
\<close>

theorem c4_grid_size_smallest:
  "MARKER_SIZE = 3
   \<and> 2 * MARKER_SIZE \<le> find_grid_size symbol_count (2 * MARKER_SIZE)
   \<and> int symbol_count
        \<le> int (find_grid_size symbol_count (2 * MARKER_SIZE))
            * int (find_grid_size symbol_count (2 * MARKER_SIZE))
          - 4 * int MARKER_SIZE * int MARKER_SIZE
   \<and> (\<forall>g. 2 * MARKER_SIZE \<le> g
          \<and> int symbol_count \<le> int g * int g - 4 * int MARKER_SIZE * int MARKER_SIZE
        \<longrightarrow> find_grid_size symbol_count (2 * MARKER_SIZE) \<le> g)"
proof -
  let ?g = "find_grid_size symbol_count (2 * MARKER_SIZE)"
  note p = find_grid_size_props [of "2 * MARKER_SIZE" symbol_count]
  have cd: "count_data_positions g = int g * int g - 4 * int MARKER_SIZE * int MARKER_SIZE" for g
    by (simp add: count_data_positions_def Let_def)
  have "?g \<le> g" if "2 * MARKER_SIZE \<le> g"
      and "int symbol_count \<le> int g * int g - 4 * int MARKER_SIZE * int MARKER_SIZE" for g
  proof (rule ccontr)
    assume "\<not> ?g \<le> g"
    then have "g < ?g" by simp
    with p that(1) have "count_data_positions g < int symbol_count" by blast
    with that(2) show False by (simp add: cd)
  qed
  with p show ?thesis
    by (simp add: cd MARKER_SIZE_def)
qed

theorem c4_grid_size_smallest_witness:
  "2 * MARKER_SIZE \<le> (10::nat)
   \<and> int 48 \<le> int 10 * int 10 - 4 * int MARKER_SIZE * int MARKER_SIZE
   \<and> find_grid_size 48 (2 * MARKER_SIZE) \<le> 10"
proof -
  have h: "2 * MARKER_SIZE \<le> (10::nat)
      \<and> int 48 \<le> int 10 * int 10 - 4 * int MARKER_SIZE * int MARKER_SIZE"
    by (simp add: MARKER_SIZE_def)
  from c4_grid_size_smallest [of 48] have
    "2 * MARKER_SIZE \<le> (10::nat)
      \<and> int 48 \<le> int 10 * int 10 - 4 * int MARKER_SIZE * int MARKER_SIZE
     \<longrightarrow> find_grid_size 48 (2 * MARKER_SIZE) \<le> 10"
    by (elim conjE allE)
  with h show ?thesis by simp
qed

subsection \<open>C5: the bit packer\<close>

text \<open>
  Claim C5. For every byte sequence \<open>b\<close>, unpacking the symbols that packing \<open>b\<close>
  produces and taking the first \<open>len(b)\<close> bytes gives \<open>b\<close> back. Here \<open>pack\<close> is
  lines 66-70 (each byte as eight binary digits, most significant first, zero digits
  appended up to a multiple of three, cut into groups of three) and \<open>unpack\<close> is lines
  192-195 (three digits for each symbol, read back eight at a time, the digits left over
  dropped). The packed sequence has \<open>ceil(8 * len(b) / 3)\<close> symbols, each below 8.
\<close>

theorem c5_unpack_pack:
  "take (length b) (unpack (pack b)) = b
   \<and> length (pack b) = (8 * length b + 2) div 3
   \<and> list_all (\<lambda>s. s < 8) (pack b)"
proof -
  obtain extra where "unpack (pack b @ replicate 0 0) = b @ extra"
    using unpack_pack_padding [of b 0] by (elim exE)
  then have "take (length b) (unpack (pack b)) = b"
    by simp
  moreover have "list_all (\<lambda>s. s < 8) (pack b)"
    unfolding list_all_iff using pack_below by blast
  ultimately show ?thesis
    by (simp add: length_pack)
qed

subsection \<open>C6: the palette quantizer\<close>

text \<open>
  Claim C6. For every symbol \<open>s\<close> in \<open>0..7\<close>, the nearest-match of the palette colour
  of \<open>s\<close> is \<open>s\<close>. For every colour, the nearest-match (\<open>_find_closest_color\<close>) is a
  palette index whose squared Euclidean RGB distance to the colour is the least of the
  eight, and every palette entry before it is strictly farther: ties go to the lowest
  index.
\<close>

theorem c6_palette_quantizer:
  "(\<forall>s<8. palette_lookup s = Inr (PALETTE ! s) \<and> find_closest_color (PALETTE ! s) = s)
   \<and> (\<forall>c. find_closest_color c < 8
          \<and> (\<forall>j<8. color_dist c (PALETTE ! find_closest_color c) \<le> color_dist c (PALETTE ! j))
          \<and> (\<forall>j<find_closest_color c.
                color_dist c (PALETTE ! find_closest_color c) < color_dist c (PALETTE ! j)))"
proof (intro conjI allI impI)
  fix s :: nat
  assume "s < 8"
  then show "palette_lookup s = Inr (PALETTE ! s)"
    by (simp add: palette_lookup_def PALETTE_length)
  show "find_closest_color (PALETTE ! s) = s"
    using \<open>s < 8\<close> by (rule find_closest_color_palette)
next
  fix c
  show "find_closest_color c < 8"
    using find_closest_color_nearest [of c] by simp
next
  fix c j
  assume "j < (8::nat)"
  then show "color_dist c (PALETTE ! find_closest_color c) \<le> color_dist c (PALETTE ! j)"
    using find_closest_color_nearest [of c] by simp
next
  fix c j
  assume "j < find_closest_color c"
  then show "color_dist c (PALETTE ! find_closest_color c) < color_dist c (PALETTE ! j)"
    using find_closest_color_nearest [of c] by simp
qed

theorem c6_palette_quantizer_witness:
  "(5::nat) < 8 \<and> palette_lookup 5 = Inr (255, 0, 255)
   \<and> find_closest_color (255, 0, 255) = 5
   \<and> (2::nat) < 8
   \<and> color_dist (250, 10, 240) (PALETTE ! find_closest_color (250, 10, 240))
        \<le> color_dist (250, 10, 240) (PALETTE ! 2)"
proof -
  have p5: "PALETTE ! 5 = (255, 0, 255)"
    by (simp add: PALETTE_def)
  have "palette_lookup 5 = Inr (PALETTE ! 5) \<and> find_closest_color (PALETTE ! 5) = 5"
    using c6_palette_quantizer [THEN conjunct1, rule_format, of 5] by simp
  moreover have "color_dist (250, 10, 240) (PALETTE ! find_closest_color (250, 10, 240))
        \<le> color_dist (250, 10, 240) (PALETTE ! 2)"
    using c6_palette_quantizer [THEN conjunct2, rule_format, of "(250, 10, 240)",
        THEN conjunct2, THEN conjunct1, rule_format, of 2]
    by simp
  ultimately show ?thesis
    by (simp add: p5)
qed

subsection \<open>Five small images\<close>

text \<open>
  An all-black image of 9 by 9 cells has 45 data cells, that is 16 unpacked bytes, all
  zero. One white cell at column 5 of row 2 is the ninth symbol (bits 24-26, byte 3
  becomes 224); one at column 4 of row 4 is the 23rd (bits 66-68, byte 8 becomes 56);
  a green cell (symbol 2) at column 1 of row 3 is the 11th (bit 31, byte 3 becomes 1);
  a white cell at column 0 of row 3 is the 10th (bits 27-29, byte 3 becomes 28).
\<close>

lemma sampled_black:
  "sampled_bytes (new_image 75 75) = Inr [0, 0, 0, 0, 0, 0, 0, 0, 0, 0, 0, 0, 0, 0, 0, 0]"
  by code_simp

lemma sampled_short_body:
  "sampled_bytes (draw_rectangle (new_image 72 72) 40 16 47 23 (255, 255, 255))
     = Inr [0, 0, 0, 224, 0, 0, 0, 0, 0, 0, 0, 0, 0, 0, 0, 0]"
  by code_simp

lemma sampled_wrong_crc:
  "sampled_bytes (draw_rectangle (new_image 72 72) 32 32 39 39 (255, 255, 255))
     = Inr [0, 0, 0, 0, 0, 0, 0, 0, 56, 0, 0, 0, 0, 0, 0, 0]"
  by code_simp

lemma sampled_one_byte:
  "sampled_bytes (draw_rectangle (new_image 72 72) 8 24 15 31 (0, 255, 0))
     = Inr [0, 0, 0, 1, 0, 0, 0, 0, 0, 0, 0, 0, 0, 0, 0, 0]"
  by code_simp

lemma header_one_byte:
  "struct_unpack (take 13 [0, 0, 0, 1, 0, 0, 0, 0, 0, 0, 0, 0, 0, 0, 0, 0])
     = Inr (1, 0, 0, False)"
  by (simp add: struct_unpack_def unpack_u32_def)

lemma sampled_slice_short:
  "sampled_bytes (draw_rectangle (new_image 72 72) 0 24 7 31 (255, 255, 255))
     = Inr [0, 0, 0, 28, 0, 0, 0, 0, 0, 0, 0, 0, 0, 0, 0, 0]"
  by code_simp

lemma header_slice_short:
  "struct_unpack (take 13 [0, 0, 0, 28, 0, 0, 0, 0, 0, 0, 0, 0, 0, 0, 0, 0])
     = Inr (28, 0, 0, False)"
  by (simp add: struct_unpack_def unpack_u32_def)

lemma header_black:
  "struct_unpack (take 13 [0, 0, 0, 0, 0, 0, 0, 0, 0, 0, 0, 0, 0, 0, 0, 0]) = Inr (0, 0, 0, False)"
  by (simp add: struct_unpack_def unpack_u32_def)

lemma header_short_body:
  "struct_unpack (take 13 [0, 0, 0, 224, 0, 0, 0, 0, 0, 0, 0, 0, 0, 0, 0, 0])
     = Inr (224, 0, 0, False)"
  by (simp add: struct_unpack_def unpack_u32_def)

lemma header_wrong_crc:
  "struct_unpack (take 13 [0, 0, 0, 0, 0, 0, 0, 0, 56, 0, 0, 0, 0, 0, 0, 0])
     = Inr (0, 0, 939524096, False)"
  by (simp add: struct_unpack_def unpack_u32_def)

lemma crc32_Nil: "unat (crc32 [] AND 0xFFFFFFFF) = 0"
  by (simp add: crc32_def)

subsection \<open>C7: the marker pattern\<close>

text \<open>
  Claim C7. In a grid of at least \<open>2 * marker_size\<close> cells each way, every cell of a
  corner block is black or white by a parity: in the top-left block that of \<open>col + row\<close>
  (even is white); in the top-right block that of the column offset from the block's
  left edge, which faces the inside of the grid, and in the bottom-left block that of
  the row offset from the block's top edge (even is black); in the bottom-right block
  that of the least of the distances to the block's four edges (even is black).
\<close>

theorem c7_marker_pattern:
  assumes "2 * int MARKER_SIZE \<le> gw" and "2 * int MARKER_SIZE \<le> gh"
  shows
    "(0 \<le> col \<and> col < int MARKER_SIZE \<and> 0 \<le> row \<and> row < int MARKER_SIZE \<longrightarrow>
        get_marker_color col row gw gh
          = Some (if (col + row) mod 2 = 0 then (255, 255, 255) else (0, 0, 0)))
     \<and> (gw - int MARKER_SIZE \<le> col \<and> col < gw \<and> 0 \<le> row \<and> row < int MARKER_SIZE \<longrightarrow>
        get_marker_color col row gw gh
          = Some (if (col - (gw - int MARKER_SIZE)) mod 2 = 0 then (0, 0, 0) else (255, 255, 255)))
     \<and> (0 \<le> col \<and> col < int MARKER_SIZE \<and> gh - int MARKER_SIZE \<le> row \<and> row < gh \<longrightarrow>
        get_marker_color col row gw gh
          = Some (if (row - (gh - int MARKER_SIZE)) mod 2 = 0 then (0, 0, 0) else (255, 255, 255)))
     \<and> (gw - int MARKER_SIZE \<le> col \<and> col < gw \<and> gh - int MARKER_SIZE \<le> row \<and> row < gh \<longrightarrow>
        get_marker_color col row gw gh
          = Some (if min (col - (gw - int MARKER_SIZE)) (min (row - (gh - int MARKER_SIZE))
                       (min (gw - 1 - col) (gh - 1 - row))) mod 2 = 0
                  then (0, 0, 0) else (255, 255, 255)))"
proof -
  have g: "6 \<le> gw" "6 \<le> gh"
    using assms by (simp_all add: MARKER_SIZE_def)
  have e: "gw - 1 - col = 2 - (col - (gw - 3))" "gh - 1 - row = 2 - (row - (gh - 3))"
    by simp_all
  show ?thesis
    using g
    by (simp add: MARKER_SIZE_def marker_top_left marker_top_right marker_bottom_left
        marker_bottom_right e del: diff_diff_eq2)
qed

theorem c7_marker_pattern_witness:
  "2 * int MARKER_SIZE \<le> 10
   \<and> get_marker_color 1 2 10 10 = Some (0, 0, 0)
   \<and> get_marker_color 8 1 10 10 = Some (255, 255, 255)
   \<and> get_marker_color 0 9 10 10 = Some (0, 0, 0)
   \<and> get_marker_color 8 8 10 10 = Some (255, 255, 255)"
proof -
  have h: "2 * int MARKER_SIZE \<le> 10"
    by (simp add: MARKER_SIZE_def)
  have "get_marker_color 1 2 10 10 = Some (0, 0, 0)"
    using c7_marker_pattern [OF h h, of 1 2] by (simp add: MARKER_SIZE_def)
  moreover have "get_marker_color 8 1 10 10 = Some (255, 255, 255)"
    using c7_marker_pattern [OF h h, of 8 1] by (simp add: MARKER_SIZE_def)
  moreover have "get_marker_color 0 9 10 10 = Some (0, 0, 0)"
    using c7_marker_pattern [OF h h, of 0 9] by (simp add: MARKER_SIZE_def)
  moreover have "get_marker_color 8 8 10 10 = Some (255, 255, 255)"
    using c7_marker_pattern [OF h h, of 8 8] by (simp add: MARKER_SIZE_def)
  ultimately show ?thesis
    using h by simp
qed

subsection \<open>C10: the uncompressed path\<close>

text \<open>
  Claim C10 says that with the compressed flag clear decode returns exactly the
  \<open>body_length\<close>-byte slice after the header. \<^verbatim>\<open>byte_array[13:13+compressed_size]\<close> has
  \<open>body_length\<close> bytes only when that many follow the header: the image below unpacks
  to a header with the flag clear that declares 28 bytes, followed by three bytes, and
  decode returns the three.
\<close>

theorem c10_uncompressed_slice_counterexample:
  "sampled_bytes (draw_rectangle (new_image 72 72) 0 24 7 31 (255, 255, 255))
     = Inr [0, 0, 0, 28, 0, 0, 0, 0, 0, 0, 0, 0, 0, 0, 0, 0]
   \<and> struct_unpack (take 13 [0, 0, 0, 28, 0, 0, 0, 0, 0, 0, 0, 0, 0, 0, 0, 0])
       = Inr (28, 0, 0, False)
   \<and> snd (image_to_file stored_decompress
            (draw_rectangle (new_image 72 72) 0 24 7 31 (255, 255, 255)) None False)
       = Inr [0, 0, 0]
   \<and> length [0, 0, 0 :: byte] < 28"
proof -
  have "decode_frame stored_decompress [0, 0, 0, 28, 0, 0, 0, 0, 0, 0, 0, 0, 0, 0, 0, 0] None False
      = ([], Inr [0, 0, 0])"
    by (simp add: decode_frame_def struct_unpack_def unpack_u32_def Let_def final_lines_def)
  then have "snd (image_to_file stored_decompress
            (draw_rectangle (new_image 72 72) 0 24 7 31 (255, 255, 255)) None False)
       = Inr [0, 0, 0]"
    by (simp add: image_to_file_sampled [OF sampled_slice_short])
  moreover have "length [0, 0, 0 :: byte] < 28"
    by simp
  ultimately show ?thesis
    by (intro conjI) (rule sampled_slice_short header_slice_short | assumption)+
qed

text \<open>
  Claim C10, amended. When the header's compressed flag is clear, decode returns the
  slice \<^verbatim>\<open>byte_array[13:13+body_length]\<close> of the unpacked bytes: \<open>body_length\<close> bytes when
  the array has that many after the header, and all the bytes after the header, fewer
  than \<open>body_length\<close>, when it has not. The \<open>raw_length\<close> field (bytes 4 to 7) is not
  used: with any four bytes in its place the outcome of lines 197-233, the printed
  lines included, is the same.
\<close>

theorem c10_uncompressed_slice:
  assumes "sampled_bytes img = Inr byte_array"
    and "13 \<le> length byte_array"
    and "struct_unpack (take 13 byte_array) = Inr (body_length, raw_length, checksum, False)"
  shows "snd (image_to_file decompress_data img output_file verbose)
           = Inr (take body_length (drop 13 byte_array))
         \<and> length (take body_length (drop 13 byte_array))
             = min body_length (length byte_array - 13)
         \<and> (\<forall>r. length r = 4 \<longrightarrow>
               decode_frame decompress_data (take 4 byte_array @ r @ drop 8 byte_array)
                  output_file verbose
                = decode_frame decompress_data byte_array output_file verbose)"
proof -
  have "snd (image_to_file decompress_data img output_file verbose)
      = snd (decode_frame decompress_data byte_array output_file verbose)"
    by (simp add: image_to_file_sampled [OF assms(1)])
  also have "\<dots> = Inr (take body_length (drop 13 byte_array))"
    using decode_frame_result [OF assms(2,3)] by simp
  finally show ?thesis
    using decode_frame_raw_length [OF assms(2)] by simp
qed

theorem c10_uncompressed_slice_witness:
  "sampled_bytes (draw_rectangle (new_image 72 72) 8 24 15 31 (0, 255, 0))
     = Inr [0, 0, 0, 1, 0, 0, 0, 0, 0, 0, 0, 0, 0, 0, 0, 0]
   \<and> 13 \<le> length [0, 0, 0, 1, 0, 0, 0, 0, 0, 0, 0, 0, 0, 0, 0, 0 :: byte]
   \<and> struct_unpack (take 13 [0, 0, 0, 1, 0, 0, 0, 0, 0, 0, 0, 0, 0, 0, 0, 0])
       = Inr (1, 0, 0, False)
   \<and> snd (image_to_file stored_decompress
            (draw_rectangle (new_image 72 72) 8 24 15 31 (0, 255, 0)) None False) = Inr [0]
   \<and> length [9, 9, 9, 9 :: byte] = 4
   \<and> decode_frame stored_decompress [0, 0, 0, 1, 9, 9, 9, 9, 0, 0, 0, 0, 0, 0, 0, 0] None False
       = decode_frame stored_decompress [0, 0, 0, 1, 0, 0, 0, 0, 0, 0, 0, 0, 0, 0, 0, 0] None False"
proof -
  have l: "13 \<le> length [0, 0, 0, 1, 0, 0, 0, 0, 0, 0, 0, 0, 0, 0, 0, 0 :: byte]"
    by simp
  have r: "length [9, 9, 9, 9 :: byte] = 4"
    by simp
  note t = c10_uncompressed_slice [OF sampled_one_byte l header_one_byte,
      of stored_decompress None False]
  have "snd (image_to_file stored_decompress
            (draw_rectangle (new_image 72 72) 8 24 15 31 (0, 255, 0)) None False) = Inr [0]"
    using t by simp
  moreover have "decode_frame stored_decompress
        [0, 0, 0, 1, 9, 9, 9, 9, 0, 0, 0, 0, 0, 0, 0, 0] None False
       = decode_frame stored_decompress [0, 0, 0, 1, 0, 0, 0, 0, 0, 0, 0, 0, 0, 0, 0, 0] None False"
    using t [THEN conjunct2, THEN conjunct2, rule_format, of "[9, 9, 9, 9]"] by simp
  ultimately show ?thesis
    using sampled_one_byte header_one_byte l r by simp
qed

subsection \<open>C2: a body shorter than the header declares\<close>

text \<open>
  Claim C2 says that a byte stream with a full header and fewer than \<open>body_length\<close>
  bytes after it makes frame parsing fail with TruncatedBody. The source has no such
  check: \<^verbatim>\<open>byte_array[13:13+compressed_size]\<close> is a slice. The image below unpacks to a
  header that declares 224 bytes, followed by three bytes; decode returns the three bytes.
\<close>

theorem c2_truncated_body_counterexample:
  "sampled_bytes (draw_rectangle (new_image 72 72) 40 16 47 23 (255, 255, 255))
     = Inr [0, 0, 0, 224, 0, 0, 0, 0, 0, 0, 0, 0, 0, 0, 0, 0]
   \<and> struct_unpack (take 13 [0, 0, 0, 224, 0, 0, 0, 0, 0, 0, 0, 0, 0, 0, 0, 0])
       = Inr (224, 0, 0, False)
   \<and> image_to_file stored_decompress
        (draw_rectangle (new_image 72 72) 40 16 47 23 (255, 255, 255)) None False
       = ([], Inr [0, 0, 0])"
proof -
  have "decode_frame stored_decompress [0, 0, 0, 224, 0, 0, 0, 0, 0, 0, 0, 0, 0, 0, 0, 0] None False
      = ([], Inr [0, 0, 0])"
    by (simp add: decode_frame_def struct_unpack_def unpack_u32_def Let_def final_lines_def)
  then have "image_to_file stored_decompress
        (draw_rectangle (new_image 72 72) 40 16 47 23 (255, 255, 255)) None False
       = ([], Inr [0, 0, 0])"
    by (simp add: image_to_file_sampled [OF sampled_short_body])
  then show ?thesis
    by (intro conjI) (rule sampled_short_body header_short_body | assumption)+
qed

text \<open>
  Claim C2, amended. For every byte stream with a full header and fewer than
  \<open>body_length\<close> bytes after it, frame parsing does not fail: the body is all the bytes
  after the header. Decode returns them when the compressed flag is clear and hands them
  to the decompressor when it is set.
\<close>

theorem c2_short_body_is_sliced:
  assumes "sampled_bytes img = Inr byte_array"
    and "13 \<le> length byte_array"
    and "struct_unpack (take 13 byte_array) = Inr (body_length, raw_length, checksum, flag)"
    and "length byte_array < 13 + body_length"
  shows "snd (image_to_file decompress_data img output_file verbose)
           = (if flag
              then (case decompress_data (drop 13 byte_array) of
                      None \<Rightarrow> Inl ZlibError | Some out \<Rightarrow> Inr out)
              else Inr (drop 13 byte_array))"
proof -
  have "take body_length (drop 13 byte_array) = drop 13 byte_array"
    using assms(4) by simp
  moreover have "snd (image_to_file decompress_data img output_file verbose)
      = snd (decode_frame decompress_data byte_array output_file verbose)"
    by (simp add: image_to_file_sampled [OF assms(1)])
  ultimately show ?thesis
    using decode_frame_result [OF assms(2,3), of decompress_data output_file verbose]
    by simp
qed

theorem c2_short_body_is_sliced_witness:
  "sampled_bytes (draw_rectangle (new_image 72 72) 40 16 47 23 (255, 255, 255))
     = Inr [0, 0, 0, 224, 0, 0, 0, 0, 0, 0, 0, 0, 0, 0, 0, 0]
   \<and> 13 \<le> length [0, 0, 0, 224, 0, 0, 0, 0, 0, 0, 0, 0, 0, 0, 0, 0 :: byte]
   \<and> struct_unpack (take 13 [0, 0, 0, 224, 0, 0, 0, 0, 0, 0, 0, 0, 0, 0, 0, 0])
       = Inr (224, 0, 0, False)
   \<and> length [0, 0, 0, 224, 0, 0, 0, 0, 0, 0, 0, 0, 0, 0, 0, 0 :: byte] < 13 + (224::nat)
   \<and> snd (image_to_file stored_decompress
            (draw_rectangle (new_image 72 72) 40 16 47 23 (255, 255, 255)) None True)
       = Inr [0, 0, 0]"
proof -
  have l: "13 \<le> length [0, 0, 0, 224, 0, 0, 0, 0, 0, 0, 0, 0, 0, 0, 0, 0 :: byte]"
    by simp
  have s: "length [0, 0, 0, 224, 0, 0, 0, 0, 0, 0, 0, 0, 0, 0, 0, 0 :: byte] < 13 + (224::nat)"
    by simp
  have "snd (image_to_file stored_decompress
            (draw_rectangle (new_image 72 72) 40 16 47 23 (255, 255, 255)) None True)
       = Inr [0, 0, 0]"
    using c2_short_body_is_sliced [OF sampled_short_body l header_short_body s,
        of stored_decompress None True]
    by simp
  with sampled_short_body header_short_body show ?thesis
    by simp
qed

subsection \<open>C8: a checksum that does not match\<close>

text \<open>
  Claim C8 says that a checksum mismatch is surfaced as a warning while decode goes on.
  The warning is printed under \<^verbatim>\<open>if verbose:\<close> (line 209) and the function returns the
  bytes alone: in quiet mode nothing tells of the mismatch. The image below unpacks to
  a header with an empty body and the checksum field 939524096, while the CRC-32 of the
  empty body is 0; its quiet decode prints nothing and returns the empty body.
\<close>

theorem c8_checksum_warning_counterexample:
  "sampled_bytes (draw_rectangle (new_image 72 72) 32 32 39 39 (255, 255, 255))
     = Inr [0, 0, 0, 0, 0, 0, 0, 0, 56, 0, 0, 0, 0, 0, 0, 0]
   \<and> struct_unpack (take 13 [0, 0, 0, 0, 0, 0, 0, 0, 56, 0, 0, 0, 0, 0, 0, 0])
       = Inr (0, 0, 939524096, False)
   \<and> unat (crc32 [] AND 0xFFFFFFFF) = 0
   \<and> image_to_file stored_decompress
        (draw_rectangle (new_image 72 72) 32 32 39 39 (255, 255, 255)) None False
       = ([], Inr [])"
proof -
  have "decode_frame stored_decompress [0, 0, 0, 0, 0, 0, 0, 0, 56, 0, 0, 0, 0, 0, 0, 0] None False
      = ([], Inr [])"
    by (simp add: decode_frame_def struct_unpack_def unpack_u32_def Let_def final_lines_def)
  then have "image_to_file stored_decompress
        (draw_rectangle (new_image 72 72) 32 32 39 39 (255, 255, 255)) None False
       = ([], Inr [])"
    by (simp add: image_to_file_sampled [OF sampled_wrong_crc])
  then show ?thesis
    by (intro conjI) (rule sampled_wrong_crc header_wrong_crc crc32_Nil | assumption)+
qed

text \<open>
  Claim C8, amended. For every decoded byte stream whose body's CRC-32 differs from
  the header's checksum field, decode does not abort: it goes on to decompression (if
  flagged) and to the output exactly as it would with a matching checksum, and it prints
  the mismatch warning if and only if it is verbose.
\<close>

theorem c8_checksum_mismatch_advisory:
  assumes "sampled_bytes img = Inr byte_array"
    and "13 \<le> length byte_array"
    and "struct_unpack (take 13 byte_array) = Inr (body_length, raw_length, checksum, flag)"
    and "unat (crc32 (take body_length (drop 13 byte_array)) AND 0xFFFFFFFF) \<noteq> checksum"
  shows "snd (image_to_file decompress_data img output_file verbose)
           = (if flag
              then (case decompress_data (take body_length (drop 13 byte_array)) of
                      None \<Rightarrow> Inl ZlibError | Some out \<Rightarrow> Inr out)
              else Inr (take body_length (drop 13 byte_array)))
         \<and> (CRC_mismatch_warning
               \<in> set (fst (image_to_file decompress_data img output_file verbose))) = verbose"
proof -
  have "snd (image_to_file decompress_data img output_file verbose)
      = snd (decode_frame decompress_data byte_array output_file verbose)"
    by (simp add: image_to_file_sampled [OF assms(1)])
  moreover have "CRC_mismatch_warning
        \<in> set (fst (image_to_file decompress_data img output_file verbose))
      \<longleftrightarrow> CRC_mismatch_warning
        \<in> set (fst (decode_frame decompress_data byte_array output_file verbose))"
    by (simp add: image_to_file_sampled [OF assms(1)])
  ultimately show ?thesis
    using decode_frame_result [OF assms(2,3), of decompress_data output_file verbose]
      decode_frame_warning [OF assms(2,3), of decompress_data output_file verbose] assms(4)
    by simp
qed

theorem c8_checksum_mismatch_advisory_witness:
  "sampled_bytes (draw_rectangle (new_image 72 72) 32 32 39 39 (255, 255, 255))
     = Inr [0, 0, 0, 0, 0, 0, 0, 0, 56, 0, 0, 0, 0, 0, 0, 0]
   \<and> 13 \<le> length [0, 0, 0, 0, 0, 0, 0, 0, 56, 0, 0, 0, 0, 0, 0, 0 :: byte]
   \<and> struct_unpack (take 13 [0, 0, 0, 0, 0, 0, 0, 0, 56, 0, 0, 0, 0, 0, 0, 0])
       = Inr (0, 0, 939524096, False)
   \<and> unat (crc32 (take 0 (drop 13 [0, 0, 0, 0, 0, 0, 0, 0, 56, 0, 0, 0, 0, 0, 0, 0]))
         AND 0xFFFFFFFF) \<noteq> 939524096
   \<and> snd (image_to_file stored_decompress
            (draw_rectangle (new_image 72 72) 32 32 39 39 (255, 255, 255)) None True)
       = Inr []
   \<and> CRC_mismatch_warning
       \<in> set (fst (image_to_file stored_decompress
            (draw_rectangle (new_image 72 72) 32 32 39 39 (255, 255, 255)) None True))"
proof -
  have l: "13 \<le> length [0, 0, 0, 0, 0, 0, 0, 0, 56, 0, 0, 0, 0, 0, 0, 0 :: byte]"
    by simp
  have c: "unat (crc32 (take 0 (drop 13 [0, 0, 0, 0, 0, 0, 0, 0, 56, 0, 0, 0, 0, 0, 0, 0]))
         AND 0xFFFFFFFF) \<noteq> 939524096"
    by (simp add: crc32_Nil)
  note t = c8_checksum_mismatch_advisory [OF sampled_wrong_crc l header_wrong_crc c,
      of stored_decompress None True]
  from t have "snd (image_to_file stored_decompress
            (draw_rectangle (new_image 72 72) 32 32 39 39 (255, 255, 255)) None True)
       = Inr []"
    by simp
  moreover from t have "CRC_mismatch_warning
       \<in> set (fst (image_to_file stored_decompress
            (draw_rectangle (new_image 72 72) 32 32 39 39 (255, 255, 255)) None True))"
    by simp
  ultimately show ?thesis
    using sampled_wrong_crc header_wrong_crc l c by simp
qed

subsection \<open>C3: an image whose size is not a multiple of the cell size\<close>

text \<open>
  Claim C3 says that decode fails with MalformedImage when the width or height is not a
  multiple of 8. The source divides with \<^verbatim>\<open>//\<close> (lines 164-165) and checks nothing: an
  all-black image of 75 by 75 pixels is decoded as a grid of 9 by 9 cells, to the empty
  byte sequence.
\<close>

theorem c3_malformed_image_counterexample:
  "img_width (new_image 75 75) mod PIXEL_SIZE = 3
   \<and> img_height (new_image 75 75) mod PIXEL_SIZE = 3
   \<and> image_to_file stored_decompress (new_image 75 75) None True
       = ([Decoding_grid 9 9], Inr [])"
proof -
  have "decode_frame stored_decompress [0, 0, 0, 0, 0, 0, 0, 0, 0, 0, 0, 0, 0, 0, 0, 0] None True
      = ([], Inr [])"
    by (simp add: decode_frame_def struct_unpack_def unpack_u32_def Let_def final_lines_def
        crc32_Nil)
  then have "((if True
               then [Decoding_grid (img_width (new_image 75 75) div PIXEL_SIZE)
                       (img_height (new_image 75 75) div PIXEL_SIZE)]
               else [])
                @ fst (decode_frame stored_decompress
                         [0, 0, 0, 0, 0, 0, 0, 0, 0, 0, 0, 0, 0, 0, 0, 0] None True),
              snd (decode_frame stored_decompress
                     [0, 0, 0, 0, 0, 0, 0, 0, 0, 0, 0, 0, 0, 0, 0, 0] None True))
      = ([Decoding_grid 9 9], Inr [])"
    by (simp add: new_image_def PIXEL_SIZE_def)
  then have "image_to_file stored_decompress (new_image 75 75) None True
       = ([Decoding_grid 9 9], Inr [])"
    by (simp only: image_to_file_sampled [OF sampled_black])
  moreover have "img_width (new_image 75 75) mod PIXEL_SIZE = 3"
      "img_height (new_image 75 75) mod PIXEL_SIZE = 3"
    by (simp_all add: new_image_def PIXEL_SIZE_def)
  ultimately show ?thesis
    by (intro conjI)
qed

text \<open>
  Claim C3, amended. For every image, decode takes the grid to be the width and the
  height divided by 8, rounded down, and goes on: every data cell of that grid is
  sampled inside the image, so the bytes to parse always exist, and the outcome is that
  of decoding the image cropped to whole cells.
\<close>

theorem c3_grid_rounded_down:
  "(\<exists>byte_array. sampled_bytes img = Inr byte_array)
   \<and> image_to_file decompress_data img output_file verbose
       = image_to_file decompress_data
           (img\<lparr>img_width := img_width img div PIXEL_SIZE * PIXEL_SIZE,
                img_height := img_height img div PIXEL_SIZE * PIXEL_SIZE\<rparr>)
           output_file verbose"
proof -
  let ?crop = "img\<lparr>img_width := img_width img div PIXEL_SIZE * PIXEL_SIZE,
                img_height := img_height img div PIXEL_SIZE * PIXEL_SIZE\<rparr>"
  have w: "img_width ?crop div PIXEL_SIZE = img_width img div PIXEL_SIZE"
    and h: "img_height ?crop div PIXEL_SIZE = img_height img div PIXEL_SIZE"
    by (simp_all add: PIXEL_SIZE_def)
  have px: "img_pixel ?crop = img_pixel img"
    by simp
  obtain byte_array where b: "sampled_bytes img = Inr byte_array"
    using sampled_bytes_eq [of img] by simp
  have "sampled_bytes ?crop = sampled_bytes img"
    unfolding sampled_bytes_eq w h px ..
  then have b': "sampled_bytes ?crop = Inr byte_array"
    using b by simp
  have "image_to_file decompress_data img output_file verbose
      = image_to_file decompress_data ?crop output_file verbose"
    unfolding image_to_file_sampled [OF b] image_to_file_sampled [OF b'] w h ..
  with b show ?thesis
    by blast
qed

subsection \<open>C1: the round trip\<close>

text \<open>
  Claim C1 says that decoding the image of any byte sequence gives it back, for both
  settings of the compress flag. The decoder opens the saved image with \<^verbatim>\<open>Image.open\<close>,
  which refuses more than 178956970 pixels. An uncompressed input of 1048318 bytes is
  encoded to a grid of 1673 cells each way, an image of 13384 by 13384 pixels, and
  decoding that image raises DecompressionBombError.
\<close>

theorem c1_roundtrip_counterexample:
  "\<exists>img. file_to_image stored_compress (replicate 1048318 0) False False = Inr img
     \<and> img_width img = 13384 \<and> img_height img = 13384
     \<and> image_to_file_saved stored_decompress img None False = ([], Inl DecompressionBombError)"
proof -
  have a: "length (replicate 1048318 (0 :: byte)) < 2 ^ 32"
    by simp
  have b: "length (if False then stored_compress (replicate 1048318 0)
                   else replicate 1048318 (0 :: byte)) < 2 ^ 32"
    by simp
  have c: "\<not> (False \<and> False \<and> replicate 1048318 (0 :: byte) = [])"
    by simp
  from encode_decode [where input_data = "replicate 1048318 0" and compress = False
      and compress_data = stored_compress and verbose = False
      and decompress_data = stored_decompress and output_file = None
      and verbose' = False, OF a b c]
  obtain img where e: "file_to_image stored_compress (replicate 1048318 0) False False = Inr img"
    and w: "img_width img
               = find_grid_size
                   ((8 * (13 + length (if False then stored_compress (replicate 1048318 0)
                       else replicate 1048318 (0 :: byte))) + 2) div 3) (2 * MARKER_SIZE)
                  * PIXEL_SIZE"
    and h: "img_height img = img_width img"
    by (elim exE conjE)
  have "find_grid_size 2795550 (2 * MARKER_SIZE) \<le> 1673"
    by (rule find_grid_size_le) (simp_all add: MARKER_SIZE_def count_data_positions_eq)
  moreover have "1672 < find_grid_size 2795550 (2 * MARKER_SIZE)"
    by (rule find_grid_size_ge) (simp add: count_data_positions_eq)
  ultimately have g: "find_grid_size 2795550 (2 * MARKER_SIZE) = 1673"
    by simp
  have w': "img_width img = 13384"
    using w by (simp add: g PIXEL_SIZE_def)
  have h': "img_height img = 13384"
    using h w' by simp
  have "image_open img = Inl DecompressionBombError"
    by (simp add: image_open_def w' h' MAX_IMAGE_PIXELS_def)
  then have "image_to_file_saved stored_decompress img None False
      = ([], Inl DecompressionBombError)"
    by (simp add: image_to_file_saved_def)
  with e w' h' show ?thesis
    by (intro exI [of _ img] conjI)
qed

text \<open>
  Claim C1, amended. For every byte sequence \<open>b\<close> shorter than \<open>2^32\<close> bytes whose body
  (the compressor's output when compress is set, \<open>b\<close> itself otherwise) has at most
  1048317 bytes, with a decompressor that gives \<open>b\<close> back from the compressor's output,
  encoding succeeds, the saved image is accepted by \<^verbatim>\<open>Image.open\<close> and decoding it returns
  exactly \<open>b\<close>. The empty sequence is included. 1048317 bytes is the longest body
  whose image, 13376 pixels each way, is within the limit of \<^verbatim>\<open>Image.open\<close>. The single
  call left out is the encoding of the empty sequence with both compress and verbose
  set.
\<close>

theorem c1_roundtrip:
  assumes "length b < 2 ^ 32"
    and "length (if compress then compress_data b else b) \<le> 1048317"
    and "compress \<longrightarrow> decompress_data (compress_data b) = Some b"
    and "\<not> (compress \<and> verbose \<and> b = [])"
  shows "\<exists>img. file_to_image compress_data b compress verbose = Inr img
           \<and> snd (image_to_file_saved decompress_data img output_file verbose') = Inr b"
proof -
  have body: "length (if compress then compress_data b else b) < 2 ^ 32"
    using assms(2) by simp
  from encode_decode [where input_data = b and compress = compress
      and compress_data = compress_data and verbose = verbose
      and decompress_data = decompress_data and output_file = output_file
      and verbose' = verbose', OF assms(1) body assms(4)]
  obtain img where e: "file_to_image compress_data b compress verbose = Inr img"
    and w: "img_width img
               = find_grid_size
                   ((8 * (13 + length (if compress then compress_data b else b)) + 2) div 3)
                   (2 * MARKER_SIZE) * PIXEL_SIZE"
    and h: "img_height img = img_width img"
    and r: "snd (image_to_file decompress_data img output_file verbose')
               = (if compress
                  then (case decompress_data (compress_data b) of
                          None \<Rightarrow> Inl ZlibError | Some out \<Rightarrow> Inr out)
                  else Inr b)"
    by (elim exE conjE)
  have g: "find_grid_size
        ((8 * (13 + length (if compress then compress_data b else b)) + 2) div 3)
        (2 * MARKER_SIZE) \<le> 1672"
    using symbols_of_body [OF assms(2)]
    by (intro find_grid_size_le) (simp_all add: MARKER_SIZE_def)
  have "image_open img = Inr img"
    using w h [unfolded w] g by (rule image_open_small)
  then have "snd (image_to_file_saved decompress_data img output_file verbose')
      = snd (image_to_file decompress_data img output_file verbose')"
    by (simp add: image_to_file_saved_def)
  also have "\<dots> = Inr b"
    using r assms(3) by auto
  finally show ?thesis
    using e by (intro exI [of _ img] conjI)
qed

theorem c1_roundtrip_witness:
  "length [65, 66, 67 :: byte] < 2 ^ 32
   \<and> length (if True then stored_compress [65, 66, 67] else [65, 66, 67]) \<le> 1048317
   \<and> stored_decompress (stored_compress [65, 66, 67]) = Some [65, 66, 67]
   \<and> [65, 66, 67 :: byte] \<noteq> []
   \<and> (\<exists>img. file_to_image stored_compress [65, 66, 67] True True = Inr img
           \<and> snd (image_to_file_saved stored_decompress img None True) = Inr [65, 66, 67])"
proof -
  have a: "length [65, 66, 67 :: byte] < 2 ^ 32"
    by simp
  have b: "length (if True then stored_compress [65, 66, 67] else [65, 66, 67]) \<le> 1048317"
    by (simp add: stored_compress_def)
  have c: "stored_decompress (stored_compress [65, 66, 67]) = Some [65, 66, 67]"
    by (simp add: stored_compress_def)
  have d: "True \<longrightarrow> stored_decompress (stored_compress [65, 66, 67]) = Some [65, 66, 67]"
    using c by simp
  have n: "[65, 66, 67 :: byte] \<noteq> []"
    by simp
  have e: "\<not> (True \<and> True \<and> [65, 66, 67 :: byte] = [])"
    by simp
  from c1_roundtrip [where b = "[65, 66, 67]" and compress = True
      and compress_data = stored_compress and decompress_data = stored_decompress
      and verbose = True and output_file = None and verbose' = True, OF a b d e]
  have "\<exists>img. file_to_image stored_compress [65, 66, 67] True True = Inr img
           \<and> snd (image_to_file_saved stored_decompress img None True) = Inr [65, 66, 67]" .
  with a b c n show ?thesis
    by (intro conjI)
qed

text \<open>
  The header holds the two lengths as 32-bit fields: for an input of \<open>2^32\<close> bytes
  \<^verbatim>\<open>struct.pack\<close> raises and no image is made.
\<close>

theorem encode_length_limit:
  "file_to_image stored_compress (replicate (2 ^ 32) 0) False False = Inl StructError"
  by (simp add: file_to_image_def Let_def struct_pack_def)

text \<open>
  The call left out of the amended claim: with compress and verbose both set (the
  defaults) the progress line of line 58 divides by the length of the input, and
  encoding the empty sequence raises ZeroDivisionError whatever the compressor.
\<close>

theorem encode_empty_verbose_compress:
  "file_to_image compress_data [] True True = Inl ZeroDivisionError"
  by (simp add: file_to_image_def)

subsection \<open>C9: the five bytes ABCDE\<close>

text \<open>The CRC-32 of \<^verbatim>\<open>b"ABCDE"\<close>, one byte at a time; zlib gives the same value, 0x72D31AD5.\<close>

lemma crc32_update_A: "crc32_update 4294967295 65 = 740712820"
  by code_simp

lemma crc32_update_B: "crc32_update 740712820 66 = 3482760184"
  by code_simp

lemma crc32_update_C: "crc32_update 3482760184 67 = 1551695031"
  by code_simp

lemma crc32_update_D: "crc32_update 1551695031 68 = 619241306"
  by code_simp

lemma crc32_update_E: "crc32_update 619241306 69 = 2368529706"
  by code_simp

lemma crc32_ABCDE: "crc32 [65, 66, 67, 68, 69] = 1926437589"
  by (simp add: crc32_def crc32_update_A crc32_update_B crc32_update_C crc32_update_D
      crc32_update_E)

lemma header_ABCDE:
  "struct_pack 5 5 (unat (crc32 [65, 66, 67, 68, 69] AND 0xFFFFFFFF)) False
     = Inr [0, 0, 0, 5, 0, 0, 0, 5, 114, 211, 26, 213, 0]"
  by (simp add: crc32_ABCDE struct_pack_def pack_u32_def)

lemma grid_ABCDE: "find_grid_size 48 (2 * MARKER_SIZE) = 10"
  by code_simp

lemma marker_cells_10:
  "length (filter (\<lambda>cell. is_marker_position (fst cell) (snd cell) 10 10) (grid_cells 10 10))
     = 36"
  by code_simp

text \<open>
  Claim C9. Encoding \<^verbatim>\<open>b"ABCDE"\<close> with \<open>compress = false\<close>: the header is made from
  \<open>body_length = 5\<close>, \<open>raw_length = 5\<close> and a clear compressed flag, and reads back so;
  header and body pack into \<open>ceil((13 + 5) * 8 / 3) = 48\<close> symbols; the grid is 10 by 10
  cells, 64 of them data cells, 36 in the four marker blocks of 9; and decoding the
  image of 80 by 80 pixels returns \<^verbatim>\<open>b"ABCDE"\<close>.
\<close>

theorem c9_abcde:
  "struct_pack (length [65, 66, 67, 68, 69 :: byte]) (length [65, 66, 67, 68, 69 :: byte])
       (unat (crc32 [65, 66, 67, 68, 69] AND 0xFFFFFFFF)) False
     = Inr [0, 0, 0, 5, 0, 0, 0, 5, 114, 211, 26, 213, 0]
   \<and> struct_unpack [0, 0, 0, 5, 0, 0, 0, 5, 114, 211, 26, 213, 0]
       = Inr (5, 5, 1926437589, False)
   \<and> length (pack ([0, 0, 0, 5, 0, 0, 0, 5, 114, 211, 26, 213, 0] @ [65, 66, 67, 68, 69])) = 48
   \<and> find_grid_size 48 (2 * MARKER_SIZE) = 10
   \<and> length (data_cells 10 10) = 64
   \<and> length (filter (\<lambda>cell. is_marker_position (fst cell) (snd cell) 10 10) (grid_cells 10 10))
       = 4 * (MARKER_SIZE * MARKER_SIZE)
   \<and> (\<exists>img. file_to_image compress_data [65, 66, 67, 68, 69] False verbose = Inr img
         \<and> img_width img = 80 \<and> img_height img = 80
         \<and> snd (image_to_file decompress_data img output_file verbose')
             = Inr [65, 66, 67, 68, 69])"
proof -
  have h: "struct_pack (length [65, 66, 67, 68, 69 :: byte]) (length [65, 66, 67, 68, 69 :: byte])
       (unat (crc32 [65, 66, 67, 68, 69] AND 0xFFFFFFFF)) False
     = Inr [0, 0, 0, 5, 0, 0, 0, 5, 114, 211, 26, 213, 0]"
  proof -
    have "length [65, 66, 67, 68, 69 :: byte] = 5"
      by simp
    then show ?thesis
      by (simp only: header_ABCDE)
  qed
  have u: "struct_unpack [0, 0, 0, 5, 0, 0, 0, 5, 114, 211, 26, 213, 0]
       = Inr (5, 5, 1926437589, False)"
    by (simp add: struct_unpack_def unpack_u32_def)
  have p: "length (pack ([0, 0, 0, 5, 0, 0, 0, 5, 114, 211, 26, 213, 0] @ [65, 66, 67, 68, 69]))
      = 48"
    by (simp add: length_pack)
  have d: "length (data_cells 10 10) = 64"
    by (simp add: data_cells_length)
  have m: "length (filter (\<lambda>cell. is_marker_position (fst cell) (snd cell) 10 10)
        (grid_cells 10 10)) = 4 * (MARKER_SIZE * MARKER_SIZE)"
    by (simp add: marker_cells_10 MARKER_SIZE_def)
  have a: "length [65, 66, 67, 68, 69 :: byte] < 2 ^ 32"
    by simp
  have b: "length (if False then compress_data [65, 66, 67, 68, 69 :: byte]
                   else [65, 66, 67, 68, 69]) < 2 ^ 32"
    by simp
  have c: "\<not> (False \<and> verbose \<and> [65, 66, 67, 68, 69 :: byte] = [])"
    by simp
  from encode_decode [where input_data = "[65, 66, 67, 68, 69]" and compress = False
      and compress_data = compress_data and verbose = verbose
      and decompress_data = decompress_data and output_file = output_file
      and verbose' = verbose', OF a b c]
  obtain img where e: "file_to_image compress_data [65, 66, 67, 68, 69] False verbose = Inr img"
    and w: "img_width img
               = find_grid_size
                   ((8 * (13 + length (if False then compress_data [65, 66, 67, 68, 69 :: byte]
                       else [65, 66, 67, 68, 69])) + 2) div 3) (2 * MARKER_SIZE) * PIXEL_SIZE"
    and hh: "img_height img = img_width img"
    and r: "snd (image_to_file decompress_data img output_file verbose')
               = (if False
                  then (case decompress_data (compress_data [65, 66, 67, 68, 69]) of
                          None \<Rightarrow> Inl ZlibError | Some out \<Rightarrow> Inr out)
                  else Inr [65, 66, 67, 68, 69])"
    by (elim exE conjE)
  have w80: "img_width img = 80"
    using w by (simp add: grid_ABCDE PIXEL_SIZE_def)
  have h80: "img_height img = 80"
    using hh w80 by simp
  have r': "snd (image_to_file decompress_data img output_file verbose')
      = Inr [65, 66, 67, 68, 69]"
    using r by simp
  have "\<exists>img. file_to_image compress_data [65, 66, 67, 68, 69] False verbose = Inr img
         \<and> img_width img = 80 \<and> img_height img = 80
         \<and> snd (image_to_file decompress_data img output_file verbose')
             = Inr [65, 66, 67, 68, 69]"
    using e w80 h80 r' by (intro exI [of _ img] conjI)
  with h u p grid_ABCDE d m show ?thesis
    by (intro conjI)
qed

end
